theory Spec2Isabelle
  imports Main "HOL-Library.Word"
begin

unbundle bit_operations_syntax

section \<open>The mapped image as a byte store\<close>

text \<open>
  \<^verbatim>\<open>ctx->elf\<close> is the file mapped read-write and private; the code overlays the ELF
  structures of \<^verbatim>\<open><elf.h>\<close> on it by pointer casts. The store is the list of the mapped
  bytes, an address is an index into it (the distance from \<^verbatim>\<open>ctx->elf\<close>), and integers are
  little-endian, as on the 64-bit hosts the tool is built for. An access that leaves
  the mapped bytes has no defined result in C: here it is \<open>None\<close>, the process faulting.
\<close>

type_synonym byte = "8 word"

fun le_word :: "byte list \<Rightarrow> 'a::len word" where
  "le_word [] = 0"
| "le_word (b # bs) = ucast b OR push_bit 8 (le_word bs)"

fun word_le :: "nat \<Rightarrow> 'a::len word \<Rightarrow> byte list" where
  "word_le 0 w = []"
| "word_le (Suc n) w = ucast w # word_le n (drop_bit 8 w)"

definition peek :: "byte list \<Rightarrow> nat \<Rightarrow> nat \<Rightarrow> byte list option" where
  "peek m a n = (if a + n \<le> length m then Some (take n (drop a m)) else None)"

definition poke :: "byte list \<Rightarrow> nat \<Rightarrow> byte list \<Rightarrow> byte list option" where
  "poke m a bs =
     (if a + length bs \<le> length m
      then Some (take a m @ bs @ drop (a + length bs) m) else None)"

definition load16 :: "byte list \<Rightarrow> nat \<Rightarrow> 16 word option" where
  "load16 m a = map_option le_word (peek m a 2)"

definition load32 :: "byte list \<Rightarrow> nat \<Rightarrow> 32 word option" where
  "load32 m a = map_option le_word (peek m a 4)"

definition load64 :: "byte list \<Rightarrow> nat \<Rightarrow> 64 word option" where
  "load64 m a = map_option le_word (peek m a 8)"

definition store32 :: "byte list \<Rightarrow> nat \<Rightarrow> 32 word \<Rightarrow> byte list option" where
  "store32 m a v = poke m a (word_le 4 v)"

definition store64 :: "byte list \<Rightarrow> nat \<Rightarrow> 64 word \<Rightarrow> byte list option" where
  "store64 m a v = poke m a (word_le 8 v)"

subsection \<open>The structures of \<^verbatim>\<open><elf.h>\<close>\<close>

text \<open>
  \<^verbatim>\<open>Elf64_Ehdr\<close> is 64 bytes: \<^verbatim>\<open>e_phoff\<close> at 32, \<^verbatim>\<open>e_shoff\<close> at 40 (8 bytes each),
  \<^verbatim>\<open>e_phnum\<close> at 56, \<^verbatim>\<open>e_shnum\<close> at 60, \<^verbatim>\<open>e_shstrndx\<close> at 62 (2 bytes each).
  \<^verbatim>\<open>Elf64_Phdr\<close> is 56 bytes: \<^verbatim>\<open>p_flags\<close> at 4 (4 bytes), \<^verbatim>\<open>p_offset\<close> at 8, \<^verbatim>\<open>p_vaddr\<close> at 16,
  \<^verbatim>\<open>p_filesz\<close> at 32, \<^verbatim>\<open>p_memsz\<close> at 40. \<^verbatim>\<open>Elf64_Shdr\<close> is 64 bytes: \<^verbatim>\<open>sh_name\<close> at 0
  (4 bytes), \<^verbatim>\<open>sh_addr\<close> at 16, \<^verbatim>\<open>sh_offset\<close> at 24, \<^verbatim>\<open>sh_size\<close> at 32. \<^verbatim>\<open>PF_X\<close> is 1.
  A table is named by the address of its first entry.
\<close>

definition e_phoff :: "byte list \<Rightarrow> 64 word option" where "e_phoff m = load64 m 32"
definition e_shoff :: "byte list \<Rightarrow> 64 word option" where "e_shoff m = load64 m 40"
definition e_phnum :: "byte list \<Rightarrow> 16 word option" where "e_phnum m = load16 m 56"
definition e_shnum :: "byte list \<Rightarrow> 16 word option" where "e_shnum m = load16 m 60"
definition e_shstrndx :: "byte list \<Rightarrow> 16 word option" where "e_shstrndx m = load16 m 62"

definition p_flags_at :: "nat \<Rightarrow> nat \<Rightarrow> nat" where "p_flags_at phdr i = phdr + 56 * i + 4"
definition p_offset_at :: "nat \<Rightarrow> nat \<Rightarrow> nat" where "p_offset_at phdr i = phdr + 56 * i + 8"
definition p_vaddr_at :: "nat \<Rightarrow> nat \<Rightarrow> nat" where "p_vaddr_at phdr i = phdr + 56 * i + 16"
definition p_filesz_at :: "nat \<Rightarrow> nat \<Rightarrow> nat" where "p_filesz_at phdr i = phdr + 56 * i + 32"
definition p_memsz_at :: "nat \<Rightarrow> nat \<Rightarrow> nat" where "p_memsz_at phdr i = phdr + 56 * i + 40"

definition sh_name_at :: "nat \<Rightarrow> nat \<Rightarrow> nat" where "sh_name_at shtable j = shtable + 64 * j"
definition sh_addr_at :: "nat \<Rightarrow> nat \<Rightarrow> nat" where "sh_addr_at shtable j = shtable + 64 * j + 16"
definition sh_offset_at :: "nat \<Rightarrow> nat \<Rightarrow> nat" where "sh_offset_at shtable j = shtable + 64 * j + 24"
definition sh_size_at :: "nat \<Rightarrow> nat \<Rightarrow> nat" where "sh_size_at shtable j = shtable + 64 * j + 32"

definition PF_X :: "32 word" where "PF_X = 1"

section \<open>The environment and the descriptors\<close>

text \<open>
  What the code takes from its platform: the value of \<^verbatim>\<open>getpagesize()\<close> (an \<^verbatim>\<open>int\<close>),
  whether \<^verbatim>\<open>malloc\<close> of a given size returns a block, whether \<^verbatim>\<open>open\<close> of the output
  path succeeds, and \<^verbatim>\<open>MAX_SH_NAMELEN\<close>, a macro of \<^verbatim>\<open>elfio.h\<close>.
\<close>

record env =
  pagesize :: int
  malloc_ok :: "64 word \<Rightarrow> bool"
  open_ok :: bool
  max_sh_namelen :: nat

definition getpagesize :: "env \<Rightarrow> 64 word" where
  \<comment> \<open>the \<^verbatim>\<open>int\<close> converted to \<^verbatim>\<open>size_t\<close>, as at each of its uses\<close>
  "getpagesize env = word_of_int (pagesize env)"

text \<open>
  Modelled from the spec: \<^verbatim>\<open>struct shinfo\<close> and \<^verbatim>\<open>struct patchinfo\<close> are declared in
  \<^verbatim>\<open>elfio.h\<close>, which is not among the sources. They are the spec's Patch Site
  Descriptor (the display name, a reference to the offset field, a reference to the
  size field, the slack) and Patch Info (base and reserved size). The widths are read
  off the uses in \<^verbatim>\<open>elfio.c\<close>: \<^verbatim>\<open>offset\<close> and \<^verbatim>\<open>size\<close> are assigned \<^verbatim>\<open>(uint32_t *)\<close>
  pointers, \<^verbatim>\<open>base\<close> is printed with \<^verbatim>\<open>%u\<close> and compared with a \<^verbatim>\<open>(uint32_t)\<close> cast,
  \<^verbatim>\<open>pinfo->size\<close> and \<^verbatim>\<open>slackspace\<close> are printed with \<^verbatim>\<open>%lu\<close>. A pointer into the
  image is the address it holds. The fields carry the prefixes \<open>si_\<close> and \<open>pi_\<close>.
\<close>

record shinfo =
  si_name :: "byte list"
  si_offset :: nat
  si_size :: nat
  si_slackspace :: "64 word"

record patchinfo =
  pi_base :: "32 word"
  pi_size :: "64 word"

text \<open>
  Modelled from the spec: \<^verbatim>\<open>drow_ctx_t\<close> and \<^verbatim>\<open>payload_t\<close> are declared in \<^verbatim>\<open>drow.h\<close>,
  which is not among the sources. They are the spec's ELF Image and Payload Blob, a
  byte buffer with its length; the file descriptor each also holds plays no part
  here. The lengths are taken as \<^verbatim>\<open>size_t\<close>, as they are printed with \<^verbatim>\<open>%lu\<close>. The
  fields carry the prefixes \<open>ctx_\<close> and \<open>pl_\<close>.
\<close>

record drow_ctx =
  ctx_size :: "64 word"
  ctx_elf :: "byte list"

record payload =
  pl_data :: "byte list"
  pl_size :: "64 word"

section \<open>The locator: \<^verbatim>\<open>find_exe_seg_last_section\<close>\<close>

text \<open>\<^verbatim>\<open>strncpy(dst, src, n)\<close>: the bytes up to the first NUL, padded with NULs to \<open>n\<close>.\<close>

fun strncpy :: "byte list \<Rightarrow> nat \<Rightarrow> nat \<Rightarrow> byte list option" where
  "strncpy m a 0 = Some []"
| "strncpy m a (Suc n) =
     (if a < length m
      then (if m ! a = 0 then Some (replicate (Suc n) 0)
            else map_option ((#) (m ! a)) (strncpy m (Suc a) n))
      else None)"

text \<open>
  \<^verbatim>\<open>sizeof(*sinfo)\<close> in the LP64 layout: the name rounded up to the alignment of a
  pointer, two pointers and a \<^verbatim>\<open>size_t\<close>.
\<close>

definition sizeof_shinfo :: "env \<Rightarrow> 64 word" where
  "sizeof_shinfo env = of_nat (8 * ((max_sh_namelen env + 7) div 8) + 24)"

text \<open>The body of the innermost \<^verbatim>\<open>if\<close>, after \<^verbatim>\<open>malloc\<close> has returned a block.\<close>

definition fill_shinfo :: "env \<Rightarrow> byte list \<Rightarrow> nat \<Rightarrow> nat \<Rightarrow> nat \<Rightarrow> shinfo option" where
  "fill_shinfo env m shtable shstr j =
     (case load32 m (sh_name_at shtable j) of
        None \<Rightarrow> None
      | Some nm \<Rightarrow>
          (case strncpy m (shstr + unat nm) (max_sh_namelen env) of
             None \<Rightarrow> None
           | Some s \<Rightarrow>
               Some \<lparr>si_name = s,
                     si_offset = sh_offset_at shtable j,
                     si_size = sh_size_at shtable j,
                     si_slackspace = getpagesize env\<rparr>))"

text \<open>\<^verbatim>\<open>shtable[j].sh_addr + shtable[j].sh_size\<close>, a 64-bit sum.\<close>

definition section_end :: "byte list \<Rightarrow> nat \<Rightarrow> nat \<Rightarrow> 64 word option" where
  "section_end m shtable j =
     (case load64 m (sh_addr_at shtable j) of
        None \<Rightarrow> None
      | Some a \<Rightarrow>
          (case load64 m (sh_size_at shtable j) of
             None \<Rightarrow> None
           | Some s \<Rightarrow> Some (a + s)))"

text \<open>
  \<^verbatim>\<open>segment_end = phdr[i].p_vaddr + phdr[i].p_memsz\<close>, stored in a \<^verbatim>\<open>uint32_t\<close>.
\<close>

definition segment_end :: "byte list \<Rightarrow> nat \<Rightarrow> nat \<Rightarrow> 32 word option" where
  "segment_end m phdr i =
     (case load64 m (p_vaddr_at phdr i) of
        None \<Rightarrow> None
      | Some a \<Rightarrow>
          (case load64 m (p_memsz_at phdr i) of
             None \<Rightarrow> None
           | Some s \<Rightarrow> Some (ucast (a + s))))"

text \<open>
  The test of line 262: the 32-bit \<^verbatim>\<open>segment_end\<close> is converted to 64 bits for the
  comparison.
\<close>

definition end_matches :: "64 word \<Rightarrow> 32 word \<Rightarrow> bool" where
  "end_matches sec_end seg_end \<longleftrightarrow> sec_end = ucast seg_end"

text \<open>
  How a loop of the locator leaves: the process faulted, \<^verbatim>\<open>malloc\<close> failed and the
  function returned \<^verbatim>\<open>NULL\<close> at once, or the loop ran to its end with \<^verbatim>\<open>sinfo\<close>.
\<close>

datatype scan = Crash | Oom | Ran "shinfo option"

function section_scan ::
  "env \<Rightarrow> byte list \<Rightarrow> nat \<Rightarrow> nat \<Rightarrow> 32 word \<Rightarrow> nat \<Rightarrow> shinfo option \<Rightarrow> scan" where
  "section_scan env m shtable shstr seg_end j sinfo =
     (case e_shnum m of
        None \<Rightarrow> Crash
      | Some shnum \<Rightarrow>
          if j < unat shnum then
            (case section_end m shtable j of
               None \<Rightarrow> Crash
             | Some e \<Rightarrow>
                 if end_matches e seg_end then
                   (if malloc_ok env (sizeof_shinfo env) then
                      (case fill_shinfo env m shtable shstr j of
                         None \<Rightarrow> Crash
                       | Some s \<Rightarrow> section_scan env m shtable shstr seg_end (j + 1) (Some s))
                    else Oom)
                 else section_scan env m shtable shstr seg_end (j + 1) sinfo)
          else Ran sinfo)"
  by pat_completeness auto
termination
proof (relation "measure (\<lambda>(env, m, shtable, shstr, seg_end, j, sinfo). 65536 - j)")
  show "wf (measure (\<lambda>(env :: env, m :: byte list, shtable :: nat, shstr :: nat,
            seg_end :: 32 word, j :: nat, sinfo :: shinfo option). 65536 - j))"
    by simp
next
  fix env :: env and m shtable shstr and seg_end :: "32 word" and j sinfo
    and shnum :: "16 word" and e s
  assume "j < unat shnum"
  moreover have "unat shnum < 65536" using unsigned_less [of shnum, where ?'a = nat] by simp
  ultimately show "((env, m, shtable, shstr, seg_end, j + 1, Some s),
                    (env, m, shtable, shstr, seg_end, j, sinfo))
        \<in> measure (\<lambda>(env, m, shtable, shstr, seg_end, j, sinfo). 65536 - j)"
    by simp
next
  fix env :: env and m shtable shstr and seg_end :: "32 word" and j sinfo
    and shnum :: "16 word" and e
  assume "j < unat shnum"
  moreover have "unat shnum < 65536" using unsigned_less [of shnum, where ?'a = nat] by simp
  ultimately show "((env, m, shtable, shstr, seg_end, j + 1, sinfo),
                    (env, m, shtable, shstr, seg_end, j, sinfo))
        \<in> measure (\<lambda>(env, m, shtable, shstr, seg_end, j, sinfo). 65536 - j)"
    by simp
qed

declare section_scan.simps [simp del]

function segment_scan ::
  "env \<Rightarrow> byte list \<Rightarrow> nat \<Rightarrow> nat \<Rightarrow> nat \<Rightarrow> nat \<Rightarrow> shinfo option \<Rightarrow> scan" where
  "segment_scan env m phdr shtable shstr i sinfo =
     (case e_phnum m of
        None \<Rightarrow> Crash
      | Some phnum \<Rightarrow>
          if i < unat phnum then
            (case load32 m (p_flags_at phdr i) of
               None \<Rightarrow> Crash
             | Some fl \<Rightarrow>
                 if fl AND PF_X \<noteq> 0 then
                   (case segment_end m phdr i of
                      None \<Rightarrow> Crash
                    | Some seg_end \<Rightarrow>
                        (case section_scan env m shtable shstr seg_end 0 sinfo of
                           Crash \<Rightarrow> Crash
                         | Oom \<Rightarrow> Oom
                         | Ran s \<Rightarrow> segment_scan env m phdr shtable shstr (i + 1) s))
                 else segment_scan env m phdr shtable shstr (i + 1) sinfo)
          else Ran sinfo)"
  by pat_completeness auto
termination
proof (relation "measure (\<lambda>(env, m, phdr, shtable, shstr, i, sinfo). 65536 - i)")
  show "wf (measure (\<lambda>(env :: env, m :: byte list, phdr :: nat, shtable :: nat, shstr :: nat,
            i :: nat, sinfo :: shinfo option). 65536 - i))"
    by simp
next
  fix env :: env and m phdr shtable shstr i sinfo and phnum :: "16 word" and fl seg_end s
  assume "i < unat phnum"
  moreover have "unat phnum < 65536" using unsigned_less [of phnum, where ?'a = nat] by simp
  ultimately show "((env, m, phdr, shtable, shstr, i + 1, s),
                    (env, m, phdr, shtable, shstr, i, sinfo))
        \<in> measure (\<lambda>(env, m, phdr, shtable, shstr, i, sinfo). 65536 - i)"
    by simp
next
  fix env :: env and m phdr shtable shstr i sinfo and phnum :: "16 word" and fl
  assume "i < unat phnum"
  moreover have "unat phnum < 65536" using unsigned_less [of phnum, where ?'a = nat] by simp
  ultimately show "((env, m, phdr, shtable, shstr, i + 1, sinfo),
                    (env, m, phdr, shtable, shstr, i, sinfo))
        \<in> measure (\<lambda>(env, m, phdr, shtable, shstr, i, sinfo). 65536 - i)"
    by simp
qed

declare segment_scan.simps [simp del]

text \<open>
  The function: \<open>None\<close> is the process faulting, \<open>Some None\<close> the \<^verbatim>\<open>NULL\<close> return.
  The string table's address is computed before the loops, from
  \<^verbatim>\<open>shtable[ehdr->e_shstrndx].sh_offset\<close>.
\<close>

definition find_exe_seg_last_section :: "env \<Rightarrow> drow_ctx \<Rightarrow> shinfo option option" where
  "find_exe_seg_last_section env ctx =
     (let m = ctx_elf ctx in
      case e_phoff m of
        None \<Rightarrow> None
      | Some phoff \<Rightarrow>
          (case e_shoff m of
             None \<Rightarrow> None
           | Some shoff \<Rightarrow>
               (case e_shstrndx m of
                  None \<Rightarrow> None
                | Some ndx \<Rightarrow>
                    (case load64 m (sh_offset_at (unat shoff) (unat ndx)) of
                       None \<Rightarrow> None
                     | Some stroff \<Rightarrow>
                         (case segment_scan env m (unat phoff) (unat shoff) (unat stroff) 0 None of
                            Crash \<Rightarrow> None
                          | Oom \<Rightarrow> Some None
                          | Ran s \<Rightarrow> Some s)))))"

section \<open>The relocator: \<^verbatim>\<open>expand_section\<close>\<close>

text \<open>
  One turn of the first loop. The sum \<^verbatim>\<open>sh_offset + adjust\<close> is made in 64 bits,
  assigned to \<^verbatim>\<open>uint32_t newoff\<close>, and \<^verbatim>\<open>newoff\<close> is stored back into the 64-bit field.
\<close>

definition sh_adjust_body :: "byte list \<Rightarrow> nat \<Rightarrow> 32 word \<Rightarrow> 64 word \<Rightarrow> nat \<Rightarrow> byte list option" where
  "sh_adjust_body m shtable base adjust i =
     (case load64 m (sh_offset_at shtable i) of
        None \<Rightarrow> None
      | Some off \<Rightarrow>
          if off < ucast base then Some m
          else (let newoff = (ucast (off + adjust) :: 32 word)
                in store64 m (sh_offset_at shtable i) (ucast newoff)))"

text \<open>
  The loop tests \<^verbatim>\<open>i < ehdr->e_shnum\<close> on the image as it is at each turn; the
  count is 16 bits wide, which bounds the number of turns.
\<close>

function sh_adjust :: "byte list \<Rightarrow> nat \<Rightarrow> 32 word \<Rightarrow> 64 word \<Rightarrow> nat \<Rightarrow> byte list option" where
  "sh_adjust m shtable base adjust i =
     (case e_shnum m of
        None \<Rightarrow> None
      | Some shnum \<Rightarrow>
          if i < unat shnum then
            (case sh_adjust_body m shtable base adjust i of
               None \<Rightarrow> None
             | Some m' \<Rightarrow> sh_adjust m' shtable base adjust (i + 1))
          else Some m)"
  by pat_completeness auto
termination
proof (relation "measure (\<lambda>(m, shtable, base, adjust, i). 65536 - i)")
  show "wf (measure (\<lambda>(m :: byte list, shtable :: nat, base :: 32 word, adjust :: 64 word,
            i :: nat). 65536 - i))"
    by simp
next
  fix m m' :: "byte list" and shtable i and base :: "32 word" and adjust :: "64 word"
    and shnum :: "16 word"
  assume "i < unat shnum"
  moreover have "unat shnum < 65536" using unsigned_less [of shnum, where ?'a = nat] by simp
  ultimately show "((m', shtable, base, adjust, i + 1), (m, shtable, base, adjust, i))
        \<in> measure (\<lambda>(m, shtable, base, adjust, i). 65536 - i)"
    by simp
qed

declare sh_adjust.simps [simp del]

text \<open>One turn of the second loop: the offset first, then the two sizes.\<close>

definition ph_adjust_body :: "byte list \<Rightarrow> nat \<Rightarrow> 32 word \<Rightarrow> 64 word \<Rightarrow> nat \<Rightarrow> byte list option" where
  "ph_adjust_body m phdr base psize i =
     (case load64 m (p_offset_at phdr i) of
        None \<Rightarrow> None
      | Some off \<Rightarrow>
          (case (if off > ucast base then store64 m (p_offset_at phdr i) (off + psize)
                 else Some m) of
             None \<Rightarrow> None
           | Some m1 \<Rightarrow>
               (case load32 m1 (p_flags_at phdr i) of
                  None \<Rightarrow> None
                | Some fl \<Rightarrow>
                    if fl AND PF_X \<noteq> 0 then
                      (case load64 m1 (p_filesz_at phdr i) of
                         None \<Rightarrow> None
                       | Some fs \<Rightarrow>
                           (case store64 m1 (p_filesz_at phdr i) (fs + psize) of
                              None \<Rightarrow> None
                            | Some m2 \<Rightarrow>
                                (case load64 m2 (p_memsz_at phdr i) of
                                   None \<Rightarrow> None
                                 | Some ms \<Rightarrow> store64 m2 (p_memsz_at phdr i) (ms + psize))))
                    else Some m1)))"

function ph_adjust :: "byte list \<Rightarrow> nat \<Rightarrow> 32 word \<Rightarrow> 64 word \<Rightarrow> nat \<Rightarrow> byte list option" where
  "ph_adjust m phdr base psize i =
     (case e_phnum m of
        None \<Rightarrow> None
      | Some phnum \<Rightarrow>
          if i < unat phnum then
            (case ph_adjust_body m phdr base psize i of
               None \<Rightarrow> None
             | Some m' \<Rightarrow> ph_adjust m' phdr base psize (i + 1))
          else Some m)"
  by pat_completeness auto
termination
proof (relation "measure (\<lambda>(m, phdr, base, psize, i). 65536 - i)")
  show "wf (measure (\<lambda>(m :: byte list, phdr :: nat, base :: 32 word, psize :: 64 word,
            i :: nat). 65536 - i))"
    by simp
next
  fix m m' :: "byte list" and phdr i and base :: "32 word" and psize :: "64 word"
    and phnum :: "16 word"
  assume "i < unat phnum"
  moreover have "unat phnum < 65536" using unsigned_less [of phnum, where ?'a = nat] by simp
  ultimately show "((m', phdr, base, psize, i + 1), (m, phdr, base, psize, i))
        \<in> measure (\<lambda>(m, phdr, base, psize, i). 65536 - i)"
    by simp
qed

declare ph_adjust.simps [simp del]

text \<open>The last two statements: the table offsets of the top-level header.\<close>

definition ehdr_adjust :: "byte list \<Rightarrow> 32 word \<Rightarrow> 64 word \<Rightarrow> byte list option" where
  "ehdr_adjust m base psize =
     (case e_shoff m of
        None \<Rightarrow> None
      | Some shoff \<Rightarrow>
          (case (if shoff > ucast base then store64 m 40 (shoff + psize) else Some m) of
             None \<Rightarrow> None
           | Some m1 \<Rightarrow>
               (case e_phoff m1 of
                  None \<Rightarrow> None
                | Some phoff \<Rightarrow>
                    if phoff > ucast base then store64 m1 32 (phoff + psize) else Some m1)))"

text \<open>
  The function. \<^verbatim>\<open>*sinfo->size\<close> and \<^verbatim>\<open>*sinfo->offset\<close> are 32-bit reads and
  \<^verbatim>\<open>*sinfo->size = ...\<close> a 32-bit write at the addresses the descriptor holds;
  \<^verbatim>\<open>size\<close> is a \<^verbatim>\<open>size_t\<close>, so the sums are made in 64 bits and cut to the width of
  what they are assigned to. The table addresses are read from the header when
  the loop that uses them starts. The function returns \<^verbatim>\<open>true\<close> whenever it
  returns; \<open>None\<close> is the process faulting.
\<close>

definition expand_section :: "env \<Rightarrow> drow_ctx \<Rightarrow> shinfo \<Rightarrow> (drow_ctx \<times> patchinfo) option" where
  "expand_section env ctx sinfo =
     (let m = ctx_elf ctx in
      case load32 m (si_size sinfo) of
        None \<Rightarrow> None
      | Some size32 \<Rightarrow>
          (case load32 m (si_offset sinfo) of
             None \<Rightarrow> None
           | Some off32 \<Rightarrow>
               (let size = (ucast size32 :: 64 word);
                    base = (ucast (ucast off32 + size) :: 32 word);
                    psize = getpagesize env
                in case store32 m (si_size sinfo) (ucast (size + si_slackspace sinfo)) of
                     None \<Rightarrow> None
                   | Some m1 \<Rightarrow>
                       (let adjust = getpagesize env
                        in case e_shoff m1 of
                             None \<Rightarrow> None
                           | Some shoff \<Rightarrow>
                               (case sh_adjust m1 (unat shoff) base adjust 0 of
                                  None \<Rightarrow> None
                                | Some m2 \<Rightarrow>
                                    (case e_phoff m2 of
                                       None \<Rightarrow> None
                                     | Some phoff \<Rightarrow>
                                         (case ph_adjust m2 (unat phoff) base psize 0 of
                                            None \<Rightarrow> None
                                          | Some m3 \<Rightarrow>
                                              (case ehdr_adjust m3 base psize of
                                                 None \<Rightarrow> None
                                               | Some m4 \<Rightarrow>
                                                   Some (ctx\<lparr>ctx_elf := m4\<rparr>,
                                                         \<lparr>pi_base = base, pi_size = psize\<rparr>)))))))))"

section \<open>The exporter: \<^verbatim>\<open>export_elf_file\<close>\<close>

text \<open>
  The output file is the list of the bytes written so far. \<^verbatim>\<open>write(fd, buf + a, count)\<close>
  appends \<open>count\<close> bytes and returns \<open>count\<close> when they all lie in the buffer, and
  returns \<open>-1\<close>, writing nothing, when they do not.
\<close>

definition sys_write :: "byte list \<Rightarrow> byte list \<Rightarrow> nat \<Rightarrow> 64 word \<Rightarrow> byte list \<times> 64 word" where
  "sys_write file buf a count =
     (case peek buf a (unat count) of
        None \<Rightarrow> (file, - 1)
      | Some bs \<Rightarrow> (file @ bs, count))"

text \<open>
  The function takes the destination as it is before the call (\<open>None\<close>: no such
  file) and returns \<^verbatim>\<open>rv\<close> with the destination as it is left. \<^verbatim>\<open>open\<close> with
  \<^verbatim>\<open>O_CREAT|O_TRUNC\<close> leaves an empty file. The result of each \<^verbatim>\<open>write\<close> is assigned to
  \<^verbatim>\<open>int n\<close> and cast for the comparison: to \<^verbatim>\<open>uint32_t\<close> after the first write, to
  \<^verbatim>\<open>size_t\<close> (with sign extension) after the others.
\<close>

definition export_elf_file ::
  "env \<Rightarrow> drow_ctx \<Rightarrow> payload \<Rightarrow> patchinfo \<Rightarrow> byte list option \<Rightarrow> bool \<times> byte list option" where
  "export_elf_file env ctx payload pinfo outfile =
     (if \<not> open_ok env then (False, outfile)
      else
        let (f1, r1) = sys_write [] (ctx_elf ctx) 0 (ucast (pi_base pinfo));
            n1 = (ucast r1 :: 32 word)
        in if n1 \<noteq> pi_base pinfo then (False, Some f1)
           else
             let (f2, r2) = sys_write f1 (pl_data payload) 0 (pl_size payload);
                 n2 = (ucast r2 :: 32 word)
             in if scast n2 \<noteq> pl_size payload then (False, Some f2)
                else
                  let padsize = pi_size pinfo - pl_size payload
                  in if \<not> malloc_ok env padsize then (False, Some f2)
                     else
                       let (f3, r3) = sys_write f2 (replicate (unat padsize) 0) 0 padsize;
                           n3 = (ucast r3 :: 32 word)
                       in if scast n3 \<noteq> padsize then (False, Some f3)
                          else
                            let remaining = ctx_size ctx - ucast (pi_base pinfo)
                            in if remaining \<noteq> 0 then
                                 let (f4, r4) = sys_write f3 (ctx_elf ctx)
                                                  (unat (pi_base pinfo)) remaining;
                                     n4 = (ucast r4 :: 32 word)
                                 in if scast n4 \<noteq> remaining then (False, Some f4)
                                    else (True, Some f4)
                               else (True, Some f3))"

section \<open>Notions used to state the properties\<close>

text \<open>
  Two images agree outside a set of addresses: same length, same bytes elsewhere.
\<close>

definition same_outside :: "nat set \<Rightarrow> byte list \<Rightarrow> byte list \<Rightarrow> bool" where
  "same_outside A m m' \<longleftrightarrow> length m' = length m \<and> (\<forall>x < length m. x \<notin> A \<longrightarrow> m' ! x = m ! x)"

text \<open>What one turn of the section loop does to an \<^verbatim>\<open>sh_offset\<close> value.\<close>

definition sh_shift :: "32 word \<Rightarrow> 64 word \<Rightarrow> 64 word \<Rightarrow> 64 word" where
  "sh_shift base adjust off =
     (if off < ucast base then off else ucast (ucast (off + adjust) :: 32 word))"

text \<open>The addresses of the \<^verbatim>\<open>sh_offset\<close> fields of the entries \<open>i\<close> to \<open>n - 1\<close>.\<close>

definition sh_cells :: "nat \<Rightarrow> nat \<Rightarrow> nat \<Rightarrow> nat set" where
  "sh_cells S i n = {x. \<exists>k. i \<le> k \<and> k < n \<and> sh_offset_at S k \<le> x \<and> x < sh_offset_at S k + 8}"

text \<open>
  What the strict test does to a \<^verbatim>\<open>p_offset\<close>, \<^verbatim>\<open>e_shoff\<close> or \<^verbatim>\<open>e_phoff\<close> value, the test
  on \<^verbatim>\<open>p_flags\<close>, and what it does to \<^verbatim>\<open>p_filesz\<close> and \<^verbatim>\<open>p_memsz\<close>.
\<close>

definition ph_shift :: "32 word \<Rightarrow> 64 word \<Rightarrow> 64 word \<Rightarrow> 64 word" where
  "ph_shift base psize off = (if off > ucast base then off + psize else off)"

definition is_exec :: "byte list \<Rightarrow> nat \<Rightarrow> nat \<Rightarrow> bool" where
  "is_exec m P i =
     (case load32 m (p_flags_at P i) of None \<Rightarrow> False | Some fl \<Rightarrow> fl AND PF_X \<noteq> 0)"

definition ph_grow :: "bool \<Rightarrow> 64 word \<Rightarrow> 64 word \<Rightarrow> 64 word" where
  "ph_grow x psize v = (if x then v + psize else v)"

text \<open>
  The addresses of the \<^verbatim>\<open>p_offset\<close>, \<^verbatim>\<open>p_filesz\<close> and \<^verbatim>\<open>p_memsz\<close> fields of the entries
  \<open>i\<close> to \<open>n - 1\<close>.
\<close>

definition ph_cells :: "nat \<Rightarrow> nat \<Rightarrow> nat \<Rightarrow> nat set" where
  "ph_cells P i n =
     {x. \<exists>k. i \<le> k \<and> k < n \<and>
           (p_offset_at P k \<le> x \<and> x < p_offset_at P k + 8
            \<or> p_filesz_at P k \<le> x \<and> x < p_filesz_at P k + 16)}"

text \<open>
  The shape of image the relocator is written for: the header and both tables lie
  in the mapped bytes, the tables start after the 64 bytes of the header and do not
  overlap each other.
\<close>

definition layout_ok :: "byte list \<Rightarrow> bool" where
  "layout_ok m \<longleftrightarrow>
     (case e_phoff m of None \<Rightarrow> False | Some phoff \<Rightarrow>
      case e_shoff m of None \<Rightarrow> False | Some shoff \<Rightarrow>
      case e_phnum m of None \<Rightarrow> False | Some phnum \<Rightarrow>
      case e_shnum m of None \<Rightarrow> False | Some shnum \<Rightarrow>
        64 \<le> unat phoff \<and> 64 \<le> unat shoff
        \<and> unat phoff + 56 * unat phnum \<le> length m
        \<and> unat shoff + 64 * unat shnum \<le> length m
        \<and> (unat phoff + 56 * unat phnum \<le> unat shoff
             \<or> unat shoff + 64 * unat shnum \<le> unat phoff))"

text \<open>
  A descriptor that points at the \<^verbatim>\<open>sh_offset\<close> and \<^verbatim>\<open>sh_size\<close> fields of entry \<open>j\<close> of
  the section table, as the locator builds it.
\<close>

definition descriptor_of :: "byte list \<Rightarrow> shinfo \<Rightarrow> nat \<Rightarrow> bool" where
  "descriptor_of m sinfo j \<longleftrightarrow>
     (case e_shoff m of None \<Rightarrow> False | Some shoff \<Rightarrow>
      case e_shnum m of None \<Rightarrow> False | Some ns \<Rightarrow>
        j < unat ns
        \<and> si_offset sinfo = sh_offset_at (unat shoff) j
        \<and> si_size sinfo = sh_size_at (unat shoff) j)"

text \<open>
  What a caller sees after \<^verbatim>\<open>expand_section\<close>: the base it put in \<^verbatim>\<open>pinfo\<close>, and a
  64-bit or 32-bit field of the image it left.
\<close>

definition base_after :: "env \<Rightarrow> drow_ctx \<Rightarrow> shinfo \<Rightarrow> 32 word option" where
  "base_after env ctx sinfo =
     (case expand_section env ctx sinfo of
        None \<Rightarrow> None
      | Some r \<Rightarrow> Some (pi_base (snd r)))"

definition field64_after :: "env \<Rightarrow> drow_ctx \<Rightarrow> shinfo \<Rightarrow> nat \<Rightarrow> 64 word option" where
  "field64_after env ctx sinfo a =
     (case expand_section env ctx sinfo of
        None \<Rightarrow> None
      | Some r \<Rightarrow> load64 (ctx_elf (fst r)) a)"

section \<open>An example image\<close>

text \<open>
  Builders for the three structures (the fields the code does not read are zero),
  and a small image: the header, two program headers at 64, the eight bytes of
  \<^verbatim>\<open>.text\<close> at 176, the eight bytes of \<^verbatim>\<open>.data\<close> at 184, the section names at 192 and
  four section headers at 208. The executable segment ends at \<^verbatim>\<open>0x4000B8\<close>, where
  \<^verbatim>\<open>.text\<close> ends; the second segment starts at file offset 184.
\<close>

definition ehdr_bytes :: "64 word \<Rightarrow> 64 word \<Rightarrow> 16 word \<Rightarrow> 16 word \<Rightarrow> 16 word \<Rightarrow> byte list" where
  "ehdr_bytes phoff shoff phnum shnum shstrndx =
     replicate 32 0 @ word_le 8 phoff @ word_le 8 shoff @ replicate 8 0 @
     word_le 2 phnum @ replicate 2 0 @ word_le 2 shnum @ word_le 2 shstrndx"

definition phdr_bytes :: "32 word \<Rightarrow> 64 word \<Rightarrow> 64 word \<Rightarrow> 64 word \<Rightarrow> 64 word \<Rightarrow> byte list" where
  "phdr_bytes flags off vaddr filesz memsz =
     replicate 4 0 @ word_le 4 flags @ word_le 8 off @ word_le 8 vaddr @ replicate 8 0 @
     word_le 8 filesz @ word_le 8 memsz @ replicate 8 0"

definition shdr_bytes :: "32 word \<Rightarrow> 64 word \<Rightarrow> 64 word \<Rightarrow> 64 word \<Rightarrow> byte list" where
  "shdr_bytes nm addr off sz =
     word_le 4 nm @ replicate 12 0 @ word_le 8 addr @ word_le 8 off @ word_le 8 sz @
     replicate 24 0"

definition shstrtab_bytes :: "byte list" where
  "shstrtab_bytes =
     [0, 0x2E, 0x74, 0x65, 0x78, 0x74, 0, 0x2E, 0x64, 0x61, 0x74, 0x61, 0, 0, 0, 0]"

definition image_a :: "byte list" where
  "image_a =
     ehdr_bytes 64 208 2 4 3
     @ phdr_bytes 5 0 0x400000 184 184 @ phdr_bytes 6 184 0x6000B8 8 8
     @ replicate 8 0x90 @ replicate 8 0x11 @ shstrtab_bytes
     @ shdr_bytes 0 0 0 0 @ shdr_bytes 1 0x4000B0 176 8
     @ shdr_bytes 7 0x6000B8 184 8 @ shdr_bytes 0 0 192 16"

definition ctx_a :: drow_ctx where
  "ctx_a = \<lparr>ctx_size = 464, ctx_elf = image_a\<rparr>"

definition env_a :: env where
  "env_a = \<lparr>pagesize = 4096, malloc_ok = (\<lambda>n. n \<le> 0x100000), open_ok = True,
             max_sh_namelen = 8\<rparr>"

definition sinfo_a :: shinfo where
  "sinfo_a = \<lparr>si_name = [0x2E, 0x74, 0x65, 0x78, 0x74, 0, 0, 0],
               si_offset = 296, si_size = 304, si_slackspace = 4096\<rparr>"

text \<open>
  The pairs the locator's test accepts, written with the fields themselves: entry \<open>i\<close>
  of the program table is flagged executable, and the 64-bit end of section \<open>j\<close> is
  the end of segment \<open>i\<close> reduced modulo \<open>2 ^ 32\<close>. \<open>match_sections\<close> lists the section
  of each accepted pair in the order of the scan, the program table in the outer loop.
\<close>

definition pair_matches :: "byte list \<Rightarrow> nat \<Rightarrow> nat \<Rightarrow> nat \<Rightarrow> nat \<Rightarrow> bool" where
  "pair_matches m P S i j \<longleftrightarrow>
     (case load32 m (p_flags_at P i) of None \<Rightarrow> False | Some fl \<Rightarrow>
      case load64 m (p_vaddr_at P i) of None \<Rightarrow> False | Some va \<Rightarrow>
      case load64 m (p_memsz_at P i) of None \<Rightarrow> False | Some ms \<Rightarrow>
      case load64 m (sh_addr_at S j) of None \<Rightarrow> False | Some sa \<Rightarrow>
      case load64 m (sh_size_at S j) of None \<Rightarrow> False | Some ss \<Rightarrow>
        fl AND PF_X \<noteq> 0 \<and> sa + ss = (va + ms) mod 2 ^ 32)"

definition match_sections :: "byte list \<Rightarrow> nat \<Rightarrow> nat \<Rightarrow> nat \<Rightarrow> nat \<Rightarrow> nat list" where
  "match_sections m P S np ns =
     concat (map (\<lambda>i. filter (pair_matches m P S i) [0 ..< ns]) [0 ..< np])"

text \<open>
  The shape of image the locator is written for: the header and both tables lie in
  the mapped bytes, the entry \<^verbatim>\<open>e_shstrndx\<close> can be read, every section's name can be
  copied from the string table, and \<^verbatim>\<open>malloc\<close> returns a block for a descriptor.
\<close>

definition locator_ok :: "env \<Rightarrow> byte list \<Rightarrow> bool" where
  "locator_ok env m \<longleftrightarrow>
     malloc_ok env (sizeof_shinfo env)
     \<and> (case e_phoff m of None \<Rightarrow> False | Some phoff \<Rightarrow>
        case e_shoff m of None \<Rightarrow> False | Some shoff \<Rightarrow>
        case e_phnum m of None \<Rightarrow> False | Some np \<Rightarrow>
        case e_shnum m of None \<Rightarrow> False | Some ns \<Rightarrow>
        case e_shstrndx m of None \<Rightarrow> False | Some ndx \<Rightarrow>
        case load64 m (sh_offset_at (unat shoff) (unat ndx)) of None \<Rightarrow> False | Some stroff \<Rightarrow>
          unat phoff + 56 * unat np \<le> length m
          \<and> unat shoff + 64 * unat ns \<le> length m
          \<and> list_all (\<lambda>j. fill_shinfo env m (unat shoff) (unat stroff) j \<noteq> None)
                [0 ..< unat ns])"

text \<open>One turn of each loop of the locator, when nothing faults and \<^verbatim>\<open>malloc\<close> succeeds.\<close>

definition sec_step ::
  "env \<Rightarrow> byte list \<Rightarrow> nat \<Rightarrow> nat \<Rightarrow> 32 word \<Rightarrow> shinfo option \<Rightarrow> nat \<Rightarrow> shinfo option" where
  "sec_step env m S shstr se s j =
     (case section_end m S j of
        None \<Rightarrow> s
      | Some e \<Rightarrow> if end_matches e se then fill_shinfo env m S shstr j else s)"

definition seg_step ::
  "env \<Rightarrow> byte list \<Rightarrow> nat \<Rightarrow> nat \<Rightarrow> nat \<Rightarrow> nat \<Rightarrow> shinfo option \<Rightarrow> nat \<Rightarrow> shinfo option" where
  "seg_step env m P S shstr n s i =
     (if is_exec m P i then
        (case segment_end m P i of
           None \<Rightarrow> s
         | Some se \<Rightarrow> foldl (sec_step env m S shstr se) s [0 ..< n])
      else s)"

text \<open>
  The example image with the executable segment moved to the virtual address
  \<^verbatim>\<open>0x100000000\<close>: the segment and \<^verbatim>\<open>.text\<close> both end at \<^verbatim>\<open>0x1000000B8\<close>.
\<close>

definition image_d :: "byte list" where
  "image_d =
     ehdr_bytes 64 208 2 4 3
     @ phdr_bytes 5 0 0x100000000 184 184 @ phdr_bytes 6 184 0x6000B8 8 8
     @ replicate 8 0x90 @ replicate 8 0x11 @ shstrtab_bytes
     @ shdr_bytes 0 0 0 0 @ shdr_bytes 1 0x1000000B0 176 8
     @ shdr_bytes 7 0x6000B8 184 8 @ shdr_bytes 0 0 192 16"

definition ctx_d :: drow_ctx where
  "ctx_d = \<lparr>ctx_size = 464, ctx_elf = image_d\<rparr>"

text \<open>
  The example image with a fifth, empty section whose \<^verbatim>\<open>sh_offset\<close> is \<^verbatim>\<open>0xFFFFF000\<close>, and
  the example image with the \<^verbatim>\<open>sh_offset\<close> of \<^verbatim>\<open>.text\<close> set to \<^verbatim>\<open>0x1000000B0\<close>.
\<close>

definition image_b :: "byte list" where
  "image_b =
     ehdr_bytes 64 208 2 5 3
     @ phdr_bytes 5 0 0x400000 184 184 @ phdr_bytes 6 184 0x6000B8 8 8
     @ replicate 8 0x90 @ replicate 8 0x11 @ shstrtab_bytes
     @ shdr_bytes 0 0 0 0 @ shdr_bytes 1 0x4000B0 176 8
     @ shdr_bytes 7 0x6000B8 184 8 @ shdr_bytes 0 0 192 16
     @ shdr_bytes 0 0 0xFFFFF000 0"

definition ctx_b :: drow_ctx where
  "ctx_b = \<lparr>ctx_size = 528, ctx_elf = image_b\<rparr>"

definition image_c :: "byte list" where
  "image_c =
     ehdr_bytes 64 208 2 4 3
     @ phdr_bytes 5 0 0x400000 184 184 @ phdr_bytes 6 184 0x6000B8 8 8
     @ replicate 8 0x90 @ replicate 8 0x11 @ shstrtab_bytes
     @ shdr_bytes 0 0 0 0 @ shdr_bytes 1 0x4000B0 0x1000000B0 8
     @ shdr_bytes 7 0x6000B8 184 8 @ shdr_bytes 0 0 192 16"

definition ctx_c :: drow_ctx where
  "ctx_c = \<lparr>ctx_size = 464, ctx_elf = image_c\<rparr>"

text \<open>
  The patch info the relocator returns on the example image, a payload of sixteen
  bytes and a payload one byte longer than a page of 4096 bytes.
\<close>

definition pinfo_a :: patchinfo where
  "pinfo_a = \<lparr>pi_base = 184, pi_size = 4096\<rparr>"

definition payload_a :: payload where
  "payload_a = \<lparr>pl_data = replicate 16 0xCC, pl_size = 16\<rparr>"

definition payload_big :: payload where
  "payload_big = \<lparr>pl_data = replicate 4097 0xCC, pl_size = 4097\<rparr>"

text \<open>
  The structural precondition in the spec's words, with the ends as the 64-bit sums
  they are: entry \<open>i\<close> of the program table is flagged executable and
  \<^verbatim>\<open>sh_addr + sh_size\<close> of section \<open>j\<close> equals \<^verbatim>\<open>p_vaddr + p_memsz\<close> of segment \<open>i\<close>.
  \<open>true_end_pairs\<close> lists such pairs in the order of the scan.
\<close>

definition true_end_matches :: "byte list \<Rightarrow> nat \<Rightarrow> nat \<Rightarrow> nat \<Rightarrow> nat \<Rightarrow> bool" where
  "true_end_matches m P S i j \<longleftrightarrow>
     (case load32 m (p_flags_at P i) of None \<Rightarrow> False | Some fl \<Rightarrow>
      case load64 m (p_vaddr_at P i) of None \<Rightarrow> False | Some va \<Rightarrow>
      case load64 m (p_memsz_at P i) of None \<Rightarrow> False | Some ms \<Rightarrow>
      case load64 m (sh_addr_at S j) of None \<Rightarrow> False | Some sa \<Rightarrow>
      case load64 m (sh_size_at S j) of None \<Rightarrow> False | Some ss \<Rightarrow>
        fl AND PF_X \<noteq> 0 \<and> sa + ss = va + ms)"

definition true_end_pairs :: "byte list \<Rightarrow> nat \<Rightarrow> nat \<Rightarrow> nat \<Rightarrow> nat \<Rightarrow> (nat \<times> nat) list" where
  "true_end_pairs m P S np ns =
     concat (map (\<lambda>i. map (Pair i) (filter (true_end_matches m P S i) [0 ..< ns])) [0 ..< np])"

section \<open>Reading and writing the store\<close>

lemma length_word_le [simp]: "length (word_le n w) = n"
  by (induction n arbitrary: w) simp_all

lemma bit_le_word:
  "bit (le_word bs :: 'a::len word) k \<longleftrightarrow>
     k < LENGTH('a) \<and> k < 8 * length bs \<and> bit (bs ! (k div 8)) (k mod 8)"
proof (induction bs arbitrary: k)
  case Nil
  then show ?case by simp
next
  case (Cons b bs)
  show ?case
  proof (cases "k < 8")
    case True
    then show ?thesis
      by (auto simp: bit_simps dest: bit_imp_le_length)
  next
    case False
    then have k: "k = 8 + (k - 8)" by simp
    have d: "(k - 8) div 8 = k div 8 - 1" using False by (metis k div_add_self1 diff_add_inverse2 add.commute zero_neq_numeral add_diff_cancel_right' plus_1_eq_Suc diff_Suc_1)
    have m: "(k - 8) mod 8 = k mod 8" using False by (metis k mod_add_self1)
    have p: "0 < k div 8" using False by simp
    show ?thesis using False Cons.IH [of "k - 8"] p
      by (auto simp: bit_simps d m nth_Cons' dest: bit_imp_le_length)
  qed
qed

lemma nth_word_le:
  "i < n \<Longrightarrow> word_le n w ! i = (ucast (drop_bit (8 * i) w) :: byte)"
proof (induction n arbitrary: w i)
  case 0
  then show ?case by simp
next
  case (Suc n)
  show ?case
  proof (cases i)
    case 0
    then show ?thesis by simp
  next
    case (Suc i')
    then show ?thesis using Suc.IH [of i' "drop_bit 8 w"] Suc.prems
      by (simp add: drop_bit_drop_bit add.commute)
  qed
qed

lemma le_word_word_le:
  "LENGTH('a::len) \<le> 8 * n \<Longrightarrow> le_word (word_le n (w :: 'a word)) = w"
proof (rule bit_word_eqI)
  fix k assume n: "LENGTH('a) \<le> 8 * n" and k: "k < LENGTH('a)"
  then have "k div 8 < n" by (simp add: less_mult_imp_div_less mult.commute)
  then show "bit (le_word (word_le n w) :: 'a word) k = bit w k"
    using n k by (auto simp: bit_le_word nth_word_le bit_simps)
qed

lemma same_outside_refl: "same_outside A m m"
  by (simp add: same_outside_def)

lemma same_outside_trans:
  "same_outside A m m' \<Longrightarrow> same_outside B m' m'' \<Longrightarrow> same_outside (A \<union> B) m m''"
  by (simp add: same_outside_def)

lemma same_outside_mono:
  "same_outside A m m' \<Longrightarrow> A \<subseteq> B \<Longrightarrow> same_outside B m m'"
  by (auto simp: same_outside_def)

lemma same_outside_length: "same_outside A m m' \<Longrightarrow> length m' = length m"
  by (simp add: same_outside_def)

lemma poke_length: "poke m a bs = Some m' \<Longrightarrow> length m' = length m"
  by (auto simp: poke_def split: if_splits)

lemma poke_nth:
  assumes "poke m a bs = Some m'" and "x < length m"
  shows "m' ! x = (if a \<le> x \<and> x < a + length bs then bs ! (x - a) else m ! x)"
proof -
  from assms(1) have b: "a + length bs \<le> length m"
    and m': "m' = take a m @ bs @ drop (a + length bs) m"
    by (auto simp: poke_def split: if_splits)
  show ?thesis using b assms(2) unfolding m'
    by (auto simp: nth_append min_def)
qed

lemma poke_same_outside: "poke m a bs = Some m' \<Longrightarrow> same_outside {a ..< a + length bs} m m'"
  by (auto simp: same_outside_def poke_length poke_nth)

lemma poke_Some: "a + length bs \<le> length m \<Longrightarrow> \<exists>m'. poke m a bs = Some m'"
  by (simp add: poke_def)

lemma peek_same_outside:
  assumes "same_outside A m m'" and "\<And>x. b \<le> x \<Longrightarrow> x < b + n \<Longrightarrow> x \<notin> A"
  shows "peek m' b n = peek m b n"
proof (cases "b + n \<le> length m")
  case False
  then show ?thesis using assms(1) by (simp add: peek_def same_outside_def)
next
  case True
  have len: "length m' = length m" using assms(1) by (simp add: same_outside_def)
  have "take n (drop b m') = take n (drop b m)"
  proof (rule nth_equalityI)
    show "length (take n (drop b m')) = length (take n (drop b m))" by (simp add: len)
  next
    fix i assume "i < length (take n (drop b m'))"
    then have i: "i < n" by simp
    then have "b + i \<notin> A" using assms(2) [of "b + i"] by simp
    moreover have "b + i < length m" using True i by simp
    ultimately have "m' ! (b + i) = m ! (b + i)" using assms(1) by (simp add: same_outside_def)
    then show "take n (drop b m') ! i = take n (drop b m) ! i"
      using i True len by simp
  qed
  then show ?thesis using True len by (simp add: peek_def)
qed

lemma peek_poke_same:
  assumes "poke m a bs = Some m'"
  shows "peek m' a (length bs) = Some bs"
proof -
  from assms have b: "a + length bs \<le> length m"
    and m': "m' = take a m @ bs @ drop (a + length bs) m"
    by (auto simp: poke_def split: if_splits)
  have la: "length (take a m) = a" using b by simp
  have "drop a (take a m @ bs @ drop (a + length bs) m) = bs @ drop (a + length bs) m"
    using la by (metis append_eq_conv_conj)
  then show ?thesis using b unfolding m' by (simp add: peek_def)
qed

lemma load16_same_outside:
  "same_outside A m m' \<Longrightarrow> (\<And>x. b \<le> x \<Longrightarrow> x < b + 2 \<Longrightarrow> x \<notin> A) \<Longrightarrow> load16 m' b = load16 m b"
  by (simp add: load16_def peek_same_outside)

lemma load32_same_outside:
  "same_outside A m m' \<Longrightarrow> (\<And>x. b \<le> x \<Longrightarrow> x < b + 4 \<Longrightarrow> x \<notin> A) \<Longrightarrow> load32 m' b = load32 m b"
  by (simp add: load32_def peek_same_outside)

lemma load64_same_outside:
  "same_outside A m m' \<Longrightarrow> (\<And>x. b \<le> x \<Longrightarrow> x < b + 8 \<Longrightarrow> x \<notin> A) \<Longrightarrow> load64 m' b = load64 m b"
  by (simp add: load64_def peek_same_outside)

lemma store64_same_outside: "store64 m a v = Some m' \<Longrightarrow> same_outside {a ..< a + 8} m m'"
  using poke_same_outside [of m a "word_le 8 v" m'] by (simp add: store64_def)

lemma store32_same_outside: "store32 m a v = Some m' \<Longrightarrow> same_outside {a ..< a + 4} m m'"
  using poke_same_outside [of m a "word_le 4 v" m'] by (simp add: store32_def)

lemma store64_Some: "a + 8 \<le> length m \<Longrightarrow> \<exists>m'. store64 m a v = Some m'"
  by (simp add: store64_def poke_def)

lemma store32_Some: "a + 4 \<le> length m \<Longrightarrow> \<exists>m'. store32 m a v = Some m'"
  by (simp add: store32_def poke_def)

lemma load64_Some: "a + 8 \<le> length m \<Longrightarrow> \<exists>v. load64 m a = Some v"
  by (simp add: load64_def peek_def)

lemma load32_Some: "a + 4 \<le> length m \<Longrightarrow> \<exists>v. load32 m a = Some v"
  by (simp add: load32_def peek_def)

lemma load16_Some: "a + 2 \<le> length m \<Longrightarrow> \<exists>v. load16 m a = Some v"
  by (simp add: load16_def peek_def)

lemma load64_bound: "load64 m a = Some v \<Longrightarrow> a + 8 \<le> length m"
  by (auto simp: load64_def peek_def split: if_splits)

lemma load32_bound: "load32 m a = Some v \<Longrightarrow> a + 4 \<le> length m"
  by (auto simp: load32_def peek_def split: if_splits)

lemma load16_bound: "load16 m a = Some v \<Longrightarrow> a + 2 \<le> length m"
  by (auto simp: load16_def peek_def split: if_splits)

lemma load64_store64: "store64 m a v = Some m' \<Longrightarrow> load64 m' a = Some v"
  using peek_poke_same [of m a "word_le 8 v" m']
  by (simp add: store64_def load64_def le_word_word_le)

lemma load32_store32: "store32 m a v = Some m' \<Longrightarrow> load32 m' a = Some v"
  using peek_poke_same [of m a "word_le 4 v" m']
  by (simp add: store32_def load32_def le_word_word_le)

text \<open>A 64-bit field seen through 32-bit pointers: the low half first.\<close>

lemma load32_low:
  assumes "load64 m a = Some v"
  shows "load32 m a = Some (ucast v)"
proof -
  from assms have b: "a + 8 \<le> length m" and v: "v = le_word (take 8 (drop a m))"
    by (auto simp: load64_def peek_def split: if_splits)
  have "(le_word (take 4 (drop a m)) :: 32 word) = ucast (le_word (take 8 (drop a m)) :: 64 word)"
    using b by (intro bit_word_eqI) (auto simp: bit_le_word bit_simps)
  then show ?thesis using b v by (simp add: load32_def peek_def)
qed

lemma load32_high:
  assumes "load64 m a = Some v"
  shows "load32 m (a + 4) = Some (ucast (drop_bit 32 v))"
proof -
  from assms have b: "a + 8 \<le> length m" and v: "v = le_word (take 8 (drop a m))"
    by (auto simp: load64_def peek_def split: if_splits)
  have "(le_word (take 4 (drop (a + 4) m)) :: 32 word)
      = ucast (drop_bit 32 (le_word (take 8 (drop a m)) :: 64 word))"
  proof (rule bit_word_eqI)
    fix k assume k: "k < LENGTH(32)"
    then have "(32 + k) div 8 = 4 + k div 8" "(32 + k) mod 8 = k mod 8" by presburger+
    then show "bit (le_word (take 4 (drop (a + 4) m)) :: 32 word) k
        = bit (ucast (drop_bit 32 (le_word (take 8 (drop a m)) :: 64 word)) :: 32 word) k"
      using b k by (auto simp: bit_le_word bit_simps add.assoc)
  qed
  then show ?thesis using b v by (simp add: load32_def peek_def)
qed

lemma load64_halves:
  assumes "load32 m a = Some lo" and "load32 m (a + 4) = Some hi"
  shows "load64 m a = Some (ucast lo OR push_bit 32 (ucast hi))"
proof -
  from assms(2) have b: "a + 8 \<le> length m" by (auto dest: load32_bound)
  then obtain v where v: "load64 m a = Some v" using load64_Some by blast
  have lo: "lo = ucast v" using load32_low [OF v] assms(1) by simp
  have hi: "hi = ucast (drop_bit 32 v)" using load32_high [OF v] assms(2) by simp
  have "v = ucast lo OR push_bit 32 (ucast hi)"
    unfolding lo hi by (rule bit_word_eqI) (auto simp: bit_simps)
  then show ?thesis using v by simp
qed

lemma sh_adjust_body_spec:
  assumes "load64 m (sh_offset_at S i) = Some off"
  shows "\<exists>m'. sh_adjust_body m S base adj i = Some m'
           \<and> same_outside {sh_offset_at S i ..< sh_offset_at S i + 8} m m'
           \<and> load64 m' (sh_offset_at S i) = Some (sh_shift base adj off)"
proof (cases "off < ucast base")
  case True
  then show ?thesis using assms
    by (simp add: sh_adjust_body_def sh_shift_def same_outside_refl)
next
  case False
  from assms have "sh_offset_at S i + 8 \<le> length m" by (rule load64_bound)
  then obtain m' where m': "store64 m (sh_offset_at S i) (sh_shift base adj off) = Some m'"
    using store64_Some by blast
  then show ?thesis using False assms
    by (simp add: sh_adjust_body_def sh_shift_def store64_same_outside load64_store64)
qed

lemma sh_adjust_spec:
  assumes "e_shnum m = Some n" and "64 \<le> S" and "S + 64 * unat n \<le> length m"
  shows "\<exists>m'. sh_adjust m S base adj i = Some m'
           \<and> same_outside (sh_cells S i (unat n)) m m'
           \<and> (\<forall>k. i \<le> k \<and> k < unat n \<longrightarrow>
                 load64 m' (sh_offset_at S k)
                   = map_option (sh_shift base adj) (load64 m (sh_offset_at S k)))"
  using assms
proof (induction "unat n - i" arbitrary: i m)
  case 0
  then have "\<not> i < unat n" by simp
  then show ?case using "0.prems"
    by (auto simp: sh_adjust.simps [of m] same_outside_refl)
next
  case (Suc d)
  then have i: "i < unat n" by simp
  then have inb: "sh_offset_at S i + 8 \<le> length m"
    using Suc.prems(3) by (simp add: sh_offset_at_def)
  then obtain off where off: "load64 m (sh_offset_at S i) = Some off"
    using load64_Some by blast
  from sh_adjust_body_spec [OF off, of base adj]
  obtain m1 where b: "sh_adjust_body m S base adj i = Some m1"
    and so1: "same_outside {sh_offset_at S i ..< sh_offset_at S i + 8} m m1"
    and l1: "load64 m1 (sh_offset_at S i) = Some (sh_shift base adj off)"
    by blast
  have len1: "length m1 = length m" using so1 by (rule same_outside_length)
  have n1: "e_shnum m1 = Some n"
    using load16_same_outside [OF so1, of 60] Suc.prems(1,2)
    by (simp add: e_shnum_def sh_offset_at_def)
  have d: "d = unat n - (i + 1)" using Suc.hyps(2) by simp
  from Suc.hyps(1) [OF d n1 Suc.prems(2)] Suc.prems(3) len1
  obtain m' where r: "sh_adjust m1 S base adj (i + 1) = Some m'"
    and so2: "same_outside (sh_cells S (i + 1) (unat n)) m1 m'"
    and l2: "\<forall>k. i + 1 \<le> k \<and> k < unat n \<longrightarrow>
                 load64 m' (sh_offset_at S k)
                   = map_option (sh_shift base adj) (load64 m1 (sh_offset_at S k))"
    by auto
  have run: "sh_adjust m S base adj i = Some m'"
    using i b r Suc.prems(1) by (simp add: sh_adjust.simps [of m])
  have sub: "{sh_offset_at S i ..< sh_offset_at S i + 8} \<union> sh_cells S (i + 1) (unat n)
               \<subseteq> sh_cells S i (unat n)"
    using i by (auto simp: sh_cells_def) (meson Suc_leD)
  have so: "same_outside (sh_cells S i (unat n)) m m'"
    using same_outside_mono [OF same_outside_trans [OF so1 so2] sub] .
  have vals: "load64 m' (sh_offset_at S k)
                = map_option (sh_shift base adj) (load64 m (sh_offset_at S k))"
    if k: "i \<le> k" "k < unat n" for k
  proof (cases "k = i")
    case True
    have "load64 m' (sh_offset_at S i) = load64 m1 (sh_offset_at S i)"
      by (rule load64_same_outside [OF so2]) (auto simp: sh_cells_def sh_offset_at_def)
    then show ?thesis using True l1 off by simp
  next
    case False
    then have "i + 1 \<le> k" using k by simp
    then have "load64 m' (sh_offset_at S k)
                 = map_option (sh_shift base adj) (load64 m1 (sh_offset_at S k))"
      using l2 k by simp
    moreover have "load64 m1 (sh_offset_at S k) = load64 m (sh_offset_at S k)"
      using False k by (intro load64_same_outside [OF so1]) (auto simp: sh_offset_at_def)
    ultimately show ?thesis by simp
  qed
  show ?case using run so vals by blast
qed

lemmas ph_at_defs = p_flags_at_def p_offset_at_def p_vaddr_at_def p_filesz_at_def p_memsz_at_def

lemma ph_adjust_body_spec:
  assumes inb: "P + 56 * i + 56 \<le> length m"
  shows "\<exists>m'. ph_adjust_body m P base ps i = Some m'
           \<and> same_outside (ph_cells P i (i + 1)) m m'
           \<and> load64 m' (p_offset_at P i) = map_option (ph_shift base ps) (load64 m (p_offset_at P i))
           \<and> load64 m' (p_filesz_at P i)
               = map_option (ph_grow (is_exec m P i) ps) (load64 m (p_filesz_at P i))
           \<and> load64 m' (p_memsz_at P i)
               = map_option (ph_grow (is_exec m P i) ps) (load64 m (p_memsz_at P i))"
proof -
  let ?po = "p_offset_at P i" and ?pf = "p_flags_at P i"
  let ?fs = "p_filesz_at P i" and ?ms = "p_memsz_at P i"
  obtain off where off: "load64 m ?po = Some off"
    using load64_Some [of ?po m] inb by (auto simp: ph_at_defs)
  obtain fs where fs: "load64 m ?fs = Some fs"
    using load64_Some [of ?fs m] inb by (auto simp: ph_at_defs)
  obtain ms where ms: "load64 m ?ms = Some ms"
    using load64_Some [of ?ms m] inb by (auto simp: ph_at_defs)
  obtain fl where fl: "load32 m ?pf = Some fl"
    using load32_Some [of ?pf m] inb by (auto simp: ph_at_defs)
  have "\<exists>m1. (if off > ucast base then store64 m ?po (off + ps) else Some m) = Some m1
          \<and> same_outside {?po ..< ?po + 8} m m1
          \<and> load64 m1 ?po = Some (ph_shift base ps off)"
  proof (cases "off > ucast base")
    case True
    obtain m1 where "store64 m ?po (off + ps) = Some m1"
      using store64_Some [of ?po m] inb by (auto simp: ph_at_defs)
    then show ?thesis using True
      by (simp add: ph_shift_def store64_same_outside load64_store64)
  next
    case False
    then show ?thesis using off by (simp add: ph_shift_def same_outside_refl)
  qed
  then obtain m1 where s1: "(if off > ucast base then store64 m ?po (off + ps) else Some m) = Some m1"
    and so1: "same_outside {?po ..< ?po + 8} m m1"
    and l1: "load64 m1 ?po = Some (ph_shift base ps off)"
    by blast
  have len1: "length m1 = length m" using so1 by (rule same_outside_length)
  have fl1: "load32 m1 ?pf = Some fl"
    using load32_same_outside [OF so1, of ?pf] fl by (simp add: ph_at_defs)
  have fs1: "load64 m1 ?fs = Some fs"
    using load64_same_outside [OF so1, of ?fs] fs by (simp add: ph_at_defs)
  have ms1: "load64 m1 ?ms = Some ms"
    using load64_same_outside [OF so1, of ?ms] ms by (simp add: ph_at_defs)
  have ex: "is_exec m P i \<longleftrightarrow> fl AND PF_X \<noteq> 0" using fl by (simp add: is_exec_def)
  show ?thesis
  proof (cases "fl AND PF_X \<noteq> 0")
    case False
    have "ph_adjust_body m P base ps i = Some m1"
      using off s1 fl1 False by (simp add: ph_adjust_body_def)
    moreover have "same_outside (ph_cells P i (i + 1)) m m1"
      by (rule same_outside_mono [OF so1]) (auto simp: ph_cells_def)
    ultimately show ?thesis using l1 fs1 ms1 off fs ms ex False
      by (simp add: ph_grow_def)
  next
    case True
    obtain m2 where s2: "store64 m1 ?fs (fs + ps) = Some m2"
      using store64_Some [of ?fs m1] inb len1 by (auto simp: ph_at_defs)
    have so2: "same_outside {?fs ..< ?fs + 8} m1 m2" using s2 by (rule store64_same_outside)
    have len2: "length m2 = length m" using so2 len1 by (simp add: same_outside_length)
    have ms2: "load64 m2 ?ms = Some ms"
      using load64_same_outside [OF so2, of ?ms] ms1 by (simp add: ph_at_defs)
    obtain m3 where s3: "store64 m2 ?ms (ms + ps) = Some m3"
      using store64_Some [of ?ms m2] inb len2 by (auto simp: ph_at_defs)
    have so3: "same_outside {?ms ..< ?ms + 8} m2 m3" using s3 by (rule store64_same_outside)
    have run: "ph_adjust_body m P base ps i = Some m3"
      using off s1 fl1 True fs1 s2 ms2 s3 by (simp add: ph_adjust_body_def)
    have so: "same_outside (ph_cells P i (i + 1)) m m3"
      by (rule same_outside_mono
            [OF same_outside_trans [OF same_outside_trans [OF so1 so2] so3]])
         (auto simp: ph_cells_def ph_at_defs)
    have a: "load64 m3 ?po = Some (ph_shift base ps off)"
      using load64_same_outside [OF so3, of ?po] load64_same_outside [OF so2, of ?po] l1
      by (simp add: ph_at_defs)
    have b: "load64 m3 ?fs = Some (fs + ps)"
      using load64_same_outside [OF so3, of ?fs] load64_store64 [OF s2]
      by (simp add: ph_at_defs)
    have c: "load64 m3 ?ms = Some (ms + ps)"
      using load64_store64 [OF s3] .
    show ?thesis using run so a b c off fs ms ex True
      by (simp add: ph_grow_def)
  qed
qed

lemma ph_adjust_spec:
  assumes "e_phnum m = Some n" and "64 \<le> P" and "P + 56 * unat n \<le> length m"
  shows "\<exists>m'. ph_adjust m P base ps i = Some m'
           \<and> same_outside (ph_cells P i (unat n)) m m'
           \<and> (\<forall>k. i \<le> k \<and> k < unat n \<longrightarrow>
                 load64 m' (p_offset_at P k)
                   = map_option (ph_shift base ps) (load64 m (p_offset_at P k))
               \<and> load64 m' (p_filesz_at P k)
                   = map_option (ph_grow (is_exec m P k) ps) (load64 m (p_filesz_at P k))
               \<and> load64 m' (p_memsz_at P k)
                   = map_option (ph_grow (is_exec m P k) ps) (load64 m (p_memsz_at P k)))"
  using assms
proof (induction "unat n - i" arbitrary: i m)
  case 0
  then have "\<not> i < unat n" by simp
  then show ?case using "0.prems"
    by (auto simp: ph_adjust.simps [of m] same_outside_refl)
next
  case (Suc d)
  then have i: "i < unat n" by simp
  then have "56 * (i + 1) \<le> 56 * unat n" by simp
  then have inb: "P + 56 * i + 56 \<le> length m"
    using Suc.prems(3) by simp
  from ph_adjust_body_spec [OF inb, of base ps]
  obtain m1 where b: "ph_adjust_body m P base ps i = Some m1"
    and so1: "same_outside (ph_cells P i (i + 1)) m m1"
    and l1: "load64 m1 (p_offset_at P i) = map_option (ph_shift base ps) (load64 m (p_offset_at P i))"
       "load64 m1 (p_filesz_at P i)
           = map_option (ph_grow (is_exec m P i) ps) (load64 m (p_filesz_at P i))"
       "load64 m1 (p_memsz_at P i)
           = map_option (ph_grow (is_exec m P i) ps) (load64 m (p_memsz_at P i))"
    by blast
  have len1: "length m1 = length m" using so1 by (rule same_outside_length)
  have n1: "e_phnum m1 = Some n"
    using load16_same_outside [OF so1, of 56] Suc.prems(1,2)
    by (auto simp: e_phnum_def ph_cells_def ph_at_defs)
  have d: "d = unat n - (i + 1)" using Suc.hyps(2) by simp
  from Suc.hyps(1) [OF d n1 Suc.prems(2)] Suc.prems(3) len1
  obtain m' where r: "ph_adjust m1 P base ps (i + 1) = Some m'"
    and so2: "same_outside (ph_cells P (i + 1) (unat n)) m1 m'"
    and l2: "\<forall>k. i + 1 \<le> k \<and> k < unat n \<longrightarrow>
                 load64 m' (p_offset_at P k)
                   = map_option (ph_shift base ps) (load64 m1 (p_offset_at P k))
               \<and> load64 m' (p_filesz_at P k)
                   = map_option (ph_grow (is_exec m1 P k) ps) (load64 m1 (p_filesz_at P k))
               \<and> load64 m' (p_memsz_at P k)
                   = map_option (ph_grow (is_exec m1 P k) ps) (load64 m1 (p_memsz_at P k))"
    by auto
  have run: "ph_adjust m P base ps i = Some m'"
    using i b r Suc.prems(1) by (simp add: ph_adjust.simps [of m])
  have sub: "ph_cells P i (i + 1) \<union> ph_cells P (i + 1) (unat n) \<subseteq> ph_cells P i (unat n)"
    using i by (auto simp: ph_cells_def) (meson Suc_leD)+
  have so: "same_outside (ph_cells P i (unat n)) m m'"
    using same_outside_mono [OF same_outside_trans [OF so1 so2] sub] .
  have vals: "load64 m' (p_offset_at P k)
                   = map_option (ph_shift base ps) (load64 m (p_offset_at P k))
               \<and> load64 m' (p_filesz_at P k)
                   = map_option (ph_grow (is_exec m P k) ps) (load64 m (p_filesz_at P k))
               \<and> load64 m' (p_memsz_at P k)
                   = map_option (ph_grow (is_exec m P k) ps) (load64 m (p_memsz_at P k))"
    if k: "i \<le> k" "k < unat n" for k
  proof (cases "k = i")
    case True
    have "load64 m' (p_offset_at P i) = load64 m1 (p_offset_at P i)"
      "load64 m' (p_filesz_at P i) = load64 m1 (p_filesz_at P i)"
      "load64 m' (p_memsz_at P i) = load64 m1 (p_memsz_at P i)"
      by (rule load64_same_outside [OF so2]; auto simp: ph_cells_def ph_at_defs)+
    then show ?thesis using True l1 by simp
  next
    case False
    then have k1: "i + 1 \<le> k" using k by simp
    have "load64 m1 (p_offset_at P k) = load64 m (p_offset_at P k)"
      "load64 m1 (p_filesz_at P k) = load64 m (p_filesz_at P k)"
      "load64 m1 (p_memsz_at P k) = load64 m (p_memsz_at P k)"
      using k1 by (intro load64_same_outside [OF so1]; auto simp: ph_cells_def ph_at_defs)+
    moreover have "load32 m1 (p_flags_at P k) = load32 m (p_flags_at P k)"
      using k1 by (intro load32_same_outside [OF so1]; auto simp: ph_cells_def ph_at_defs)
    then have "is_exec m1 P k = is_exec m P k" by (simp add: is_exec_def)
    ultimately show ?thesis using l2 k1 k by simp
  qed
  show ?case using run so vals by blast
qed

lemma unat_ucast_64_32: "unat (ucast (x :: 64 word) :: 32 word) = unat x mod 2 ^ 32"
  by (simp add: unsigned_ucast_eq take_bit_eq_mod)

lemma unat_ucast_32_64: "unat (ucast (x :: 32 word) :: 64 word) = unat x"
proof -
  have "unat x < 2 ^ 32" using unsigned_less [of x, where ?'a = nat] by simp
  then have "unat x < 2 ^ 64" by simp
  then show ?thesis by (simp add: unsigned_ucast_eq take_bit_nat_eq_self)
qed

lemma mod_mod_64_32: "(n :: nat) mod 18446744073709551616 mod 4294967296 = n mod 4294967296"
  by (rule mod_mod_cancel) simp

lemma unat32_mod: "unat (a :: 32 word) mod 4294967296 = unat a"
  using unsigned_less [of a, where ?'a = nat] by simp

lemma ucast_add_32_64: "(ucast ((ucast a :: 64 word) + b) :: 32 word) = a + ucast b"
  by (simp add: word_unat_eq_iff unat_ucast_64_32 unat_ucast_32_64 unat_word_ariths
      mod_mod_64_32 mod_simps)

lemma ucast_ucast_32_64: "(ucast (ucast a :: 64 word) :: 32 word) = a"
  by (simp add: word_unat_eq_iff unat_ucast_64_32 unat_ucast_32_64 unat32_mod)

lemma layout_okD:
  assumes "layout_ok m"
  obtains phoff shoff np ns where
    "e_phoff m = Some phoff" "e_shoff m = Some shoff" "e_phnum m = Some np" "e_shnum m = Some ns"
    "64 \<le> unat phoff" "64 \<le> unat shoff"
    "unat phoff + 56 * unat np \<le> length m" "unat shoff + 64 * unat ns \<le> length m"
    "unat phoff + 56 * unat np \<le> unat shoff \<or> unat shoff + 64 * unat ns \<le> unat phoff"
  using assms unfolding layout_ok_def by (auto split: option.splits)

lemma sh_cells_region: "x \<in> sh_cells S i n \<Longrightarrow> S + 64 * i + 24 \<le> x \<and> x < S + 64 * n"
proof -
  assume "x \<in> sh_cells S i n"
  then obtain k where k: "i \<le> k" "k < n" "S + 64 * k + 24 \<le> x" "x < S + 64 * k + 32"
    by (auto simp: sh_cells_def sh_offset_at_def)
  have "64 * i \<le> 64 * k" "64 * (k + 1) \<le> 64 * n" using k(1,2) by simp_all
  then show ?thesis using k(3,4) by simp
qed

lemma sh_cells_not_size:
  assumes "x \<in> sh_cells S i n"
  shows "\<not> (sh_size_at S j \<le> x \<and> x < sh_size_at S j + 8)"
proof
  assume a: "sh_size_at S j \<le> x \<and> x < sh_size_at S j + 8"
  from assms obtain k where k: "S + 64 * k + 24 \<le> x" "x < S + 64 * k + 32"
    by (auto simp: sh_cells_def sh_offset_at_def)
  from a have j: "S + 64 * j + 32 \<le> x" "x < S + 64 * j + 40" by (simp_all add: sh_size_at_def)
  show False using k j by presburger
qed

lemma ph_cells_entry:
  assumes "x \<in> ph_cells P i n"
  shows "\<exists>k. i \<le> k \<and> k < n \<and> P + 56 * k + 8 \<le> x \<and> x < P + 56 * k + 48"
proof -
  from assms obtain k where k: "i \<le> k" "k < n"
    and c: "P + 56 * k + 8 \<le> x \<and> x < P + 56 * k + 8 + 8
            \<or> P + 56 * k + 32 \<le> x \<and> x < P + 56 * k + 32 + 16"
    unfolding ph_cells_def ph_at_defs by blast
  from c have "P + 56 * k + 8 \<le> x \<and> x < P + 56 * k + 48" by linarith
  then show ?thesis using k by blast
qed

lemma ph_cells_region: "x \<in> ph_cells P i n \<Longrightarrow> P + 56 * i + 8 \<le> x \<and> x < P + 56 * n"
proof -
  assume "x \<in> ph_cells P i n"
  then obtain k where "i \<le> k \<and> k < n \<and> P + 56 * k + 8 \<le> x \<and> x < P + 56 * k + 48"
    using ph_cells_entry by blast
  then have k: "i \<le> k" "k < n" "P + 56 * k + 8 \<le> x" "x < P + 56 * k + 48" by simp_all
  have "56 * i \<le> 56 * k" "56 * (k + 1) \<le> 56 * n" using k(1,2) by simp_all
  then show ?thesis using k(3,4) by simp
qed

lemma ph_cells_not_flags:
  assumes "x \<in> ph_cells P i n"
  shows "\<not> (p_flags_at P j \<le> x \<and> x < p_flags_at P j + 4)"
proof
  assume a: "p_flags_at P j \<le> x \<and> x < p_flags_at P j + 4"
  from assms obtain k where "P + 56 * k + 8 \<le> x \<and> x < P + 56 * k + 48"
    using ph_cells_entry by blast
  then have k: "P + 56 * k + 8 \<le> x" "x < P + 56 * k + 48" by simp_all
  from a have j: "P + 56 * j + 4 \<le> x" "x < P + 56 * j + 8" by (simp_all add: ph_at_defs)
  show False using k j by presburger
qed

lemma ehdr_adjust_spec:
  assumes "e_shoff m = Some shoff" and "e_phoff m = Some phoff"
  shows "\<exists>m'. ehdr_adjust m base ps = Some m'
           \<and> same_outside {32 ..< 48} m m'
           \<and> e_shoff m' = Some (ph_shift base ps shoff)
           \<and> e_phoff m' = Some (ph_shift base ps phoff)"
proof -
  have b: "48 \<le> length m" using load64_bound [of m 40 shoff] assms(1) by (simp add: e_shoff_def)
  have "\<exists>m1. (if shoff > ucast base then store64 m 40 (shoff + ps) else Some m) = Some m1
          \<and> same_outside {40 ..< 48} m m1 \<and> load64 m1 40 = Some (ph_shift base ps shoff)"
  proof (cases "shoff > ucast base")
    case True
    obtain m1 where "store64 m 40 (shoff + ps) = Some m1"
      using store64_Some [of 40 m] b by auto
    then show ?thesis using True store64_same_outside [of m 40 "shoff + ps" m1]
      by (simp add: ph_shift_def load64_store64)
  next
    case False
    then show ?thesis using assms(1) by (simp add: ph_shift_def same_outside_refl e_shoff_def)
  qed
  then obtain m1 where s1: "(if shoff > ucast base then store64 m 40 (shoff + ps) else Some m) = Some m1"
    and so1: "same_outside {40 ..< 48} m m1"
    and l1: "load64 m1 40 = Some (ph_shift base ps shoff)"
    by blast
  have len1: "length m1 = length m" using so1 by (rule same_outside_length)
  have p1: "e_phoff m1 = Some phoff"
    using load64_same_outside [OF so1, of 32] assms(2) by (simp add: e_phoff_def)
  have "\<exists>m2. (if phoff > ucast base then store64 m1 32 (phoff + ps) else Some m1) = Some m2
          \<and> same_outside {32 ..< 40} m1 m2 \<and> load64 m2 32 = Some (ph_shift base ps phoff)"
  proof (cases "phoff > ucast base")
    case True
    obtain m2 where "store64 m1 32 (phoff + ps) = Some m2"
      using store64_Some [of 32 m1] b len1 by auto
    then show ?thesis using True store64_same_outside [of m1 32 "phoff + ps" m2]
      by (simp add: ph_shift_def load64_store64)
  next
    case False
    then show ?thesis using p1 by (simp add: ph_shift_def same_outside_refl e_phoff_def)
  qed
  then obtain m2 where s2: "(if phoff > ucast base then store64 m1 32 (phoff + ps) else Some m1) = Some m2"
    and so2: "same_outside {32 ..< 40} m1 m2"
    and l2: "load64 m2 32 = Some (ph_shift base ps phoff)"
    by blast
  have run: "ehdr_adjust m base ps = Some m2"
    using assms(1) s1 p1 s2 by (simp add: ehdr_adjust_def)
  have so: "same_outside {32 ..< 48} m m2"
    by (rule same_outside_mono [OF same_outside_trans [OF so1 so2]]) auto
  have "load64 m2 40 = load64 m1 40"
    by (rule load64_same_outside [OF so2]) auto
  then show ?thesis using run so l1 l2 by (simp add: e_shoff_def e_phoff_def)
qed

lemma frame_interval:
  "same_outside {a ..< a + l} m m' \<Longrightarrow> b + w \<le> a \<or> a + l \<le> b \<Longrightarrow> peek m' b w = peek m b w"
  by (rule peek_same_outside) auto

lemma frame_sh_cells:
  "same_outside (sh_cells S i n) m m' \<Longrightarrow> b + w \<le> S \<or> S + 64 * n \<le> b
     \<Longrightarrow> peek m' b w = peek m b w"
  by (rule peek_same_outside) (auto dest!: sh_cells_region)

lemma frame_sh_cells_size:
  "same_outside (sh_cells S i n) m m' \<Longrightarrow> sh_size_at S j \<le> b \<Longrightarrow> b + w \<le> sh_size_at S j + 8
     \<Longrightarrow> peek m' b w = peek m b w"
  by (rule peek_same_outside) (auto dest!: sh_cells_not_size [where j = j])

lemma frame_ph_cells:
  "same_outside (ph_cells P i n) m m' \<Longrightarrow> b + w \<le> P \<or> P + 56 * n \<le> b
     \<Longrightarrow> peek m' b w = peek m b w"
  by (rule peek_same_outside) (auto dest!: ph_cells_region)

lemma frame_ph_cells_flags:
  "same_outside (ph_cells P i n) m m' \<Longrightarrow> peek m' (p_flags_at P j) 4 = peek m (p_flags_at P j) 4"
  by (rule peek_same_outside) (auto dest!: ph_cells_not_flags [where j = j])

lemma frame_size_cell_offset:
  assumes "same_outside {sh_size_at S j ..< sh_size_at S j + 4} m m'"
  shows "peek m' (sh_offset_at S k) 8 = peek m (sh_offset_at S k) 8"
proof (rule peek_same_outside [OF assms])
  fix x assume "sh_offset_at S k \<le> x" "x < sh_offset_at S k + 8"
  then have "S + 64 * k + 24 \<le> x" "x < S + 64 * k + 32" by (simp_all add: sh_offset_at_def)
  then have "\<not> (S + 64 * j + 32 \<le> x \<and> x < S + 64 * j + 36)" by presburger
  then show "x \<notin> {sh_size_at S j ..< sh_size_at S j + 4}"
    unfolding sh_size_at_def atLeastLessThan_iff by linarith
qed

lemmas load_defs = load16_def load32_def load64_def

lemmas ehdr_defs = e_phoff_def e_shoff_def e_phnum_def e_shnum_def

lemma expand_section_spec:
  assumes lay: "layout_ok (ctx_elf ctx)"
    and sh: "e_shoff (ctx_elf ctx) = Some shoff" "e_shnum (ctx_elf ctx) = Some ns"
    and ph: "e_phoff (ctx_elf ctx) = Some phoff" "e_phnum (ctx_elf ctx) = Some np"
    and j: "j < unat ns"
    and si: "si_offset sinfo = sh_offset_at (unat shoff) j"
            "si_size sinfo = sh_size_at (unat shoff) j"
  obtains m' off32 size32 where
    "load32 (ctx_elf ctx) (sh_offset_at (unat shoff) j) = Some off32"
    "load32 (ctx_elf ctx) (sh_size_at (unat shoff) j) = Some size32"
    "expand_section env ctx sinfo
       = Some (ctx\<lparr>ctx_elf := m'\<rparr>, \<lparr>pi_base = off32 + size32, pi_size = getpagesize env\<rparr>)"
    "length m' = length (ctx_elf ctx)"
    "\<And>k. k < unat ns \<Longrightarrow>
       load64 m' (sh_offset_at (unat shoff) k)
         = map_option (sh_shift (off32 + size32) (getpagesize env))
             (load64 (ctx_elf ctx) (sh_offset_at (unat shoff) k))"
    "load32 m' (sh_size_at (unat shoff) j) = Some (size32 + ucast (si_slackspace sinfo))"
    "load32 m' (sh_size_at (unat shoff) j + 4) = load32 (ctx_elf ctx) (sh_size_at (unat shoff) j + 4)"
    "\<And>k. k < unat np \<Longrightarrow>
       load64 m' (p_offset_at (unat phoff) k)
         = map_option (ph_shift (off32 + size32) (getpagesize env))
             (load64 (ctx_elf ctx) (p_offset_at (unat phoff) k))"
    "\<And>k. k < unat np \<Longrightarrow>
       load64 m' (p_filesz_at (unat phoff) k)
         = map_option (ph_grow (is_exec (ctx_elf ctx) (unat phoff) k) (getpagesize env))
             (load64 (ctx_elf ctx) (p_filesz_at (unat phoff) k))"
    "\<And>k. k < unat np \<Longrightarrow>
       load64 m' (p_memsz_at (unat phoff) k)
         = map_option (ph_grow (is_exec (ctx_elf ctx) (unat phoff) k) (getpagesize env))
             (load64 (ctx_elf ctx) (p_memsz_at (unat phoff) k))"
    "e_shoff m' = Some (ph_shift (off32 + size32) (getpagesize env) shoff)"
    "e_phoff m' = Some (ph_shift (off32 + size32) (getpagesize env) phoff)"
    "e_shnum m' = Some ns" "e_phnum m' = Some np"
    "same_outside ({sh_size_at (unat shoff) j ..< sh_size_at (unat shoff) j + 4}
        \<union> sh_cells (unat shoff) 0 (unat ns) \<union> ph_cells (unat phoff) 0 (unat np)
        \<union> {32 ..< 48}) (ctx_elf ctx) m'"
proof -
  let ?m = "ctx_elf ctx" and ?S = "unat shoff" and ?P = "unat phoff"
  let ?sz = "sh_size_at ?S j" and ?pg = "getpagesize env"
  from lay sh ph have S64: "64 \<le> ?S" and P64: "64 \<le> ?P"
    and Sb: "?S + 64 * unat ns \<le> length ?m" and Pb: "?P + 56 * unat np \<le> length ?m"
    and dj: "?P + 56 * unat np \<le> ?S \<or> ?S + 64 * unat ns \<le> ?P"
    by (simp_all add: layout_ok_def)
  have "64 * (j + 1) \<le> 64 * unat ns" using j by simp
  then have jn: "?S + 64 * j + 64 \<le> ?S + 64 * unat ns" by simp
  then have jb: "?S + 64 * j + 64 \<le> length ?m" using Sb by simp
  obtain off32 where o32: "load32 ?m (sh_offset_at ?S j) = Some off32"
    using load32_Some [of "sh_offset_at ?S j" ?m] jb by (auto simp: sh_offset_at_def)
  obtain size32 where s32: "load32 ?m ?sz = Some size32"
    using load32_Some [of ?sz ?m] jb by (auto simp: sh_size_at_def)
  let ?B = "off32 + size32"
  \<comment> \<open>the 32-bit store into the size field\<close>
  obtain m1 where st1: "store32 ?m ?sz (size32 + ucast (si_slackspace sinfo)) = Some m1"
    using store32_Some [of ?sz ?m] jb by (auto simp: sh_size_at_def)
  have so1: "same_outside {?sz ..< ?sz + 4} ?m m1" using st1 by (rule store32_same_outside)
  have len1: "length m1 = length ?m" using so1 by (rule same_outside_length)
  have h1: "e_shoff m1 = Some shoff" "e_shnum m1 = Some ns"
    "e_phoff m1 = Some phoff" "e_phnum m1 = Some np"
    using sh ph S64 frame_interval [OF so1]
    by (simp_all add: ehdr_defs load_defs sh_size_at_def)
  \<comment> \<open>the section loop\<close>
  from sh_adjust_spec [OF h1(2) S64, of ?B ?pg 0] Sb len1
  obtain m2 where r2: "sh_adjust m1 ?S ?B ?pg 0 = Some m2"
    and so2: "same_outside (sh_cells ?S 0 (unat ns)) m1 m2"
    and l2: "\<And>k. k < unat ns \<Longrightarrow> load64 m2 (sh_offset_at ?S k)
                   = map_option (sh_shift ?B ?pg) (load64 m1 (sh_offset_at ?S k))"
    by auto
  have len2: "length m2 = length ?m" using so2 len1 by (simp add: same_outside_length)
  have h2: "e_shoff m2 = Some shoff" "e_shnum m2 = Some ns"
    "e_phoff m2 = Some phoff" "e_phnum m2 = Some np"
    using h1 S64 frame_sh_cells [OF so2]
    by (simp_all add: ehdr_defs load_defs)
  \<comment> \<open>the program header loop\<close>
  from ph_adjust_spec [OF h2(4) P64, of ?B ?pg 0] Pb len2
  obtain m3 where r3: "ph_adjust m2 ?P ?B ?pg 0 = Some m3"
    and so3: "same_outside (ph_cells ?P 0 (unat np)) m2 m3"
    and l3: "\<And>k. k < unat np \<Longrightarrow>
                 load64 m3 (p_offset_at ?P k)
                   = map_option (ph_shift ?B ?pg) (load64 m2 (p_offset_at ?P k))
               \<and> load64 m3 (p_filesz_at ?P k)
                   = map_option (ph_grow (is_exec m2 ?P k) ?pg) (load64 m2 (p_filesz_at ?P k))
               \<and> load64 m3 (p_memsz_at ?P k)
                   = map_option (ph_grow (is_exec m2 ?P k) ?pg) (load64 m2 (p_memsz_at ?P k))"
    by auto
  have len3: "length m3 = length ?m" using so3 len2 by (simp add: same_outside_length)
  have h3: "e_shoff m3 = Some shoff" "e_shnum m3 = Some ns"
    "e_phoff m3 = Some phoff" "e_phnum m3 = Some np"
    using h2 P64 frame_ph_cells [OF so3]
    by (simp_all add: ehdr_defs load_defs)
  \<comment> \<open>the header\<close>
  from ehdr_adjust_spec [OF h3(1) h3(3), of ?B ?pg]
  obtain m4 where r4: "ehdr_adjust m3 ?B ?pg = Some m4"
    and so4: "same_outside {32 ..< 48} m3 m4"
    and l4: "e_shoff m4 = Some (ph_shift ?B ?pg shoff)" "e_phoff m4 = Some (ph_shift ?B ?pg phoff)"
    by blast
  have len4: "length m4 = length ?m" using so4 len3 by (simp add: same_outside_length)
  have so4': "same_outside {32 ..< 32 + 16} m3 m4" using so4 by simp
  have h4: "e_shnum m4 = Some ns" "e_phnum m4 = Some np"
    using h3 frame_interval [OF so4']
    by (simp_all add: ehdr_defs load_defs)
  have run: "expand_section env ctx sinfo
       = Some (ctx\<lparr>ctx_elf := m4\<rparr>, \<lparr>pi_base = ?B, pi_size = ?pg\<rparr>)"
    using o32 s32 st1 h1 r2 h2 r3 r4 si
    by (simp add: expand_section_def Let_def ucast_add_32_64 ucast_ucast_32_64
        add.commute [of off32])
  \<comment> \<open>what the final image holds\<close>
  have out_hdr: "peek m4 b w = peek m3 b w" if "64 \<le> b" for b w
    using that by (intro frame_interval [OF so4']) simp
  have out_ph: "peek m3 b w = peek m2 b w" if "?S \<le> b" "b + w \<le> ?S + 64 * unat ns" for b w
  proof (rule frame_ph_cells [OF so3])
    show "b + w \<le> ?P \<or> ?P + 56 * unat np \<le> b" using dj that by linarith
  qed
  have shk: "load64 m4 (sh_offset_at ?S k)
         = map_option (sh_shift ?B ?pg) (load64 ?m (sh_offset_at ?S k))" if k: "k < unat ns" for k
  proof -
    have "64 * (k + 1) \<le> 64 * unat ns" using k by simp
    then have kb: "?S + 64 * k + 64 \<le> ?S + 64 * unat ns" by simp
    have "peek m4 (sh_offset_at ?S k) 8 = peek m3 (sh_offset_at ?S k) 8"
      using S64 by (intro out_hdr) (simp add: sh_offset_at_def)
    also have "\<dots> = peek m2 (sh_offset_at ?S k) 8"
      using kb by (intro out_ph) (simp_all add: sh_offset_at_def)
    finally have "load64 m4 (sh_offset_at ?S k) = load64 m2 (sh_offset_at ?S k)"
      by (simp add: load_defs)
    also have "\<dots> = map_option (sh_shift ?B ?pg) (load64 m1 (sh_offset_at ?S k))"
      using l2 [OF k] .
    also have "load64 m1 (sh_offset_at ?S k) = load64 ?m (sh_offset_at ?S k)"
      using frame_size_cell_offset [OF so1, of k] by (simp add: load_defs)
    finally show ?thesis .
  qed
  have szlo: "load32 m4 ?sz = Some (size32 + ucast (si_slackspace sinfo))"
  proof -
    have "peek m4 ?sz 4 = peek m3 ?sz 4"
      using S64 by (intro out_hdr) (simp add: sh_size_at_def)
    also have "\<dots> = peek m2 ?sz 4"
      using jn by (intro out_ph) (simp_all add: sh_size_at_def)
    also have "\<dots> = peek m1 ?sz 4"
      by (rule frame_sh_cells_size [OF so2, of j]) simp_all
    finally have "load32 m4 ?sz = load32 m1 ?sz" by (simp add: load_defs)
    then show ?thesis using load32_store32 [OF st1] by simp
  qed
  have szhi: "load32 m4 (?sz + 4) = load32 ?m (?sz + 4)"
  proof -
    have "peek m4 (?sz + 4) 4 = peek m3 (?sz + 4) 4"
      using S64 by (intro out_hdr) (simp add: sh_size_at_def)
    also have "\<dots> = peek m2 (?sz + 4) 4"
      using jn by (intro out_ph) (simp_all add: sh_size_at_def)
    also have "\<dots> = peek m1 (?sz + 4) 4"
      by (rule frame_sh_cells_size [OF so2, of j]) simp_all
    also have "\<dots> = peek ?m (?sz + 4) 4"
      by (rule frame_interval [OF so1]) simp
    finally show ?thesis by (simp add: load_defs)
  qed
  have pre_ph: "peek m2 b w = peek ?m b w" if "?P \<le> b" "b + w \<le> ?P + 56 * unat np" for b w
  proof -
    have "b + w \<le> ?S \<or> ?S + 64 * unat ns \<le> b" using dj that by linarith
    then have "peek m2 b w = peek m1 b w" by (rule frame_sh_cells [OF so2])
    also have "peek m1 b w = peek ?m b w"
    proof (rule frame_interval [OF so1])
      show "b + w \<le> ?sz \<or> ?sz + 4 \<le> b"
        using dj that jn unfolding sh_size_at_def by linarith
    qed
    finally show ?thesis .
  qed
  have phk: "load64 m4 (p_offset_at ?P k)
           = map_option (ph_shift ?B ?pg) (load64 ?m (p_offset_at ?P k))
         \<and> load64 m4 (p_filesz_at ?P k)
           = map_option (ph_grow (is_exec ?m ?P k) ?pg) (load64 ?m (p_filesz_at ?P k))
         \<and> load64 m4 (p_memsz_at ?P k)
           = map_option (ph_grow (is_exec ?m ?P k) ?pg) (load64 ?m (p_memsz_at ?P k))"
    if k: "k < unat np" for k
  proof -
    have "56 * (k + 1) \<le> 56 * unat np" using k by simp
    then have kb: "?P + 56 * k + 56 \<le> ?P + 56 * unat np" by simp
    have "peek m4 (p_offset_at ?P k) 8 = peek m3 (p_offset_at ?P k) 8"
      "peek m4 (p_filesz_at ?P k) 8 = peek m3 (p_filesz_at ?P k) 8"
      "peek m4 (p_memsz_at ?P k) 8 = peek m3 (p_memsz_at ?P k) 8"
      using P64 by (intro out_hdr; simp add: ph_at_defs)+
    then have a: "load64 m4 (p_offset_at ?P k) = load64 m3 (p_offset_at ?P k)"
      "load64 m4 (p_filesz_at ?P k) = load64 m3 (p_filesz_at ?P k)"
      "load64 m4 (p_memsz_at ?P k) = load64 m3 (p_memsz_at ?P k)"
      by (simp_all add: load_defs)
    have "peek m2 (p_offset_at ?P k) 8 = peek ?m (p_offset_at ?P k) 8"
      "peek m2 (p_filesz_at ?P k) 8 = peek ?m (p_filesz_at ?P k) 8"
      "peek m2 (p_memsz_at ?P k) 8 = peek ?m (p_memsz_at ?P k) 8"
      "peek m2 (p_flags_at ?P k) 4 = peek ?m (p_flags_at ?P k) 4"
      using kb by (intro pre_ph; simp add: ph_at_defs)+
    then have b: "load64 m2 (p_offset_at ?P k) = load64 ?m (p_offset_at ?P k)"
      "load64 m2 (p_filesz_at ?P k) = load64 ?m (p_filesz_at ?P k)"
      "load64 m2 (p_memsz_at ?P k) = load64 ?m (p_memsz_at ?P k)"
      "load32 m2 (p_flags_at ?P k) = load32 ?m (p_flags_at ?P k)"
      by (simp_all add: load_defs)
    have c: "is_exec m2 ?P k = is_exec ?m ?P k" using b(4) by (simp add: is_exec_def)
    show ?thesis using l3 [OF k] a b(1-3) c by simp
  qed
  have so: "same_outside ({?sz ..< ?sz + 4} \<union> sh_cells ?S 0 (unat ns)
              \<union> ph_cells ?P 0 (unat np) \<union> {32 ..< 48}) ?m m4"
    using same_outside_trans [OF same_outside_trans [OF same_outside_trans [OF so1 so2] so3] so4] .
  show ?thesis
    using that [OF o32 s32 run len4 shk szlo szhi _ _ _ l4 h4 so] phk by blast
qed

lemma descriptor_ofD:
  assumes "descriptor_of m sinfo j" and "e_shoff m = Some shoff" and "e_shnum m = Some ns"
  shows "j < unat ns" "si_offset sinfo = sh_offset_at (unat shoff) j"
    "si_size sinfo = sh_size_at (unat shoff) j"
  using assms by (simp_all add: descriptor_of_def)

lemma expand_section_base:
  assumes "expand_section env ctx sinfo = Some (ctx', pinfo)"
    and "load32 (ctx_elf ctx) (si_offset sinfo) = Some off32"
    and "load32 (ctx_elf ctx) (si_size sinfo) = Some size32"
  shows "pinfo = \<lparr>pi_base = off32 + size32, pi_size = getpagesize env\<rparr>"
  using assms
  by (simp add: expand_section_def Let_def ucast_add_32_64 ucast_ucast_32_64
      add.commute [of off32] split: option.split_asm)

section \<open>The locator as a scan for the last match\<close>

lemma section_scan_foldl:
  assumes "e_shnum m = Some ns"
    and "malloc_ok env (sizeof_shinfo env)"
    and "\<And>j. j < unat ns \<Longrightarrow> section_end m S j \<noteq> None"
    and "\<And>j. j < unat ns \<Longrightarrow> fill_shinfo env m S shstr j \<noteq> None"
  shows "section_scan env m S shstr se j sinfo
           = Ran (foldl (sec_step env m S shstr se) sinfo [j ..< unat ns])"
proof (induction "unat ns - j" arbitrary: j sinfo)
  case 0
  then have "\<not> j < unat ns" by simp
  then show ?case using assms(1) by (simp add: section_scan.simps [of env m])
next
  case (Suc d)
  then have j: "j < unat ns" and d: "d = unat ns - (j + 1)" by simp_all
  obtain e where e: "section_end m S j = Some e" using assms(3) [OF j] by auto
  obtain s where s: "fill_shinfo env m S shstr j = Some s" using assms(4) [OF j] by auto
  have up: "[j ..< unat ns] = j # [j + 1 ..< unat ns]" using j by (simp add: upt_conv_Cons)
  show ?case
  proof (cases "end_matches e se")
    case True
    then have "section_scan env m S shstr se j sinfo
                 = section_scan env m S shstr se (j + 1) (Some s)"
      using j e s assms(1,2) by (simp add: section_scan.simps [of env m S shstr se j])
    then show ?thesis using Suc.hyps(1) [OF d, of "Some s"] up e s True
      by (simp add: sec_step_def)
  next
    case False
    then have "section_scan env m S shstr se j sinfo
                 = section_scan env m S shstr se (j + 1) sinfo"
      using j e assms(1) by (simp add: section_scan.simps [of env m S shstr se j])
    then show ?thesis using Suc.hyps(1) [OF d, of sinfo] up e False
      by (simp add: sec_step_def)
  qed
qed

lemma segment_scan_foldl:
  assumes "e_phnum m = Some np" and "e_shnum m = Some ns"
    and "malloc_ok env (sizeof_shinfo env)"
    and "\<And>i. i < unat np \<Longrightarrow> load32 m (p_flags_at P i) \<noteq> None"
    and "\<And>i. i < unat np \<Longrightarrow> segment_end m P i \<noteq> None"
    and "\<And>j. j < unat ns \<Longrightarrow> section_end m S j \<noteq> None"
    and "\<And>j. j < unat ns \<Longrightarrow> fill_shinfo env m S shstr j \<noteq> None"
  shows "segment_scan env m P S shstr i sinfo
           = Ran (foldl (seg_step env m P S shstr (unat ns)) sinfo [i ..< unat np])"
proof (induction "unat np - i" arbitrary: i sinfo)
  case 0
  then have "\<not> i < unat np" by simp
  then show ?case using assms(1) by (simp add: segment_scan.simps [of env m])
next
  case (Suc d)
  then have i: "i < unat np" and d: "d = unat np - (i + 1)" by simp_all
  obtain fl where fl: "load32 m (p_flags_at P i) = Some fl" using assms(4) [OF i] by auto
  obtain se where se: "segment_end m P i = Some se" using assms(5) [OF i] by auto
  have up: "[i ..< unat np] = i # [i + 1 ..< unat np]" using i by (simp add: upt_conv_Cons)
  have ex: "is_exec m P i \<longleftrightarrow> fl AND PF_X \<noteq> 0" using fl by (simp add: is_exec_def)
  note inner = section_scan_foldl [OF assms(2,3,6,7), where se = se and j = 0 and sinfo = sinfo]
  show ?case
  proof (cases "fl AND PF_X \<noteq> 0")
    case True
    then have "segment_scan env m P S shstr i sinfo
                 = segment_scan env m P S shstr (i + 1)
                     (foldl (sec_step env m S shstr se) sinfo [0 ..< unat ns])"
      using i fl se assms(1) inner
      by (simp add: segment_scan.simps [of env m P S shstr i])
    then show ?thesis
      using Suc.hyps(1) [OF d, of "foldl (sec_step env m S shstr se) sinfo [0 ..< unat ns]"]
        up se ex True
      by (simp add: seg_step_def)
  next
    case False
    then have "segment_scan env m P S shstr i sinfo
                 = segment_scan env m P S shstr (i + 1) sinfo"
      using i fl assms(1) by (simp add: segment_scan.simps [of env m P S shstr i])
    then show ?thesis using Suc.hyps(1) [OF d, of sinfo] up ex False
      by (simp add: seg_step_def)
  qed
qed

lemma foldl_last_filter:
  "foldl (\<lambda>s x. if p x then h x else s) s0 xs
     = (if filter p xs = [] then s0 else h (last (filter p xs)))"
  by (induction xs arbitrary: s0) auto

lemma foldl_last_concat:
  "foldl (\<lambda>s i. if G i = [] then s else h (last (G i))) s0 xs
     = (if concat (map G xs) = [] then s0 else h (last (concat (map G xs))))"
proof (induction xs arbitrary: s0)
  case Nil
  then show ?case by simp
next
  case (Cons i xs)
  show ?case
  proof (cases "G i = []")
    case True
    then show ?thesis using Cons.IH [of s0] by simp
  next
    case False
    then show ?thesis using Cons.IH [of "h (last (G i))"] by (simp add: last_append)
  qed
qed

lemma ucast_down_up_mod: "(ucast (ucast (x :: 64 word) :: 32 word) :: 64 word) = x mod 2 ^ 32"
  by (simp add: word_unat_eq_iff unat_ucast_32_64 unat_ucast_64_32 unat_mod_distrib)

lemma end_matches_mod:
  "end_matches e (ucast (x :: 64 word)) \<longleftrightarrow> e = x mod 2 ^ 32"
  by (simp add: end_matches_def ucast_down_up_mod)

lemma sec_step_pair:
  assumes "segment_end m P i = Some se" and "is_exec m P i"
  shows "sec_step env m S shstr se s j
           = (if pair_matches m P S i j then fill_shinfo env m S shstr j else s)"
  using assms
  by (auto simp: sec_step_def pair_matches_def segment_end_def section_end_def is_exec_def
        end_matches_mod split: option.splits)

lemma pair_matches_exec: "pair_matches m P S i j \<Longrightarrow> is_exec m P i"
  by (auto simp: pair_matches_def is_exec_def split: option.splits)

lemma pair_matches_segment_end: "pair_matches m P S i j \<Longrightarrow> segment_end m P i \<noteq> None"
  by (auto simp: pair_matches_def segment_end_def split: option.splits)

lemma seg_step_matches:
  "seg_step env m P S shstr n s i
     = (if filter (pair_matches m P S i) [0 ..< n] = [] then s
        else fill_shinfo env m S shstr (last (filter (pair_matches m P S i) [0 ..< n])))"
proof (cases "is_exec m P i \<and> segment_end m P i \<noteq> None")
  case True
  then obtain se where se: "segment_end m P i = Some se" and ex: "is_exec m P i" by auto
  have "sec_step env m S shstr se
          = (\<lambda>s j. if pair_matches m P S i j then fill_shinfo env m S shstr j else s)"
    by (intro ext) (rule sec_step_pair [OF se ex])
  then show ?thesis using se ex
    by (simp add: seg_step_def foldl_last_filter)
next
  case False
  then have "filter (pair_matches m P S i) [0 ..< n] = []"
    by (auto simp: filter_empty_conv dest: pair_matches_exec pair_matches_segment_end)
  then show ?thesis using False by (auto simp: seg_step_def)
qed

lemma locator_spec:
  assumes ok: "locator_ok env (ctx_elf ctx)"
    and hdr: "e_phoff (ctx_elf ctx) = Some phoff" "e_shoff (ctx_elf ctx) = Some shoff"
      "e_phnum (ctx_elf ctx) = Some np" "e_shnum (ctx_elf ctx) = Some ns"
      "e_shstrndx (ctx_elf ctx) = Some ndx"
      "load64 (ctx_elf ctx) (sh_offset_at (unat shoff) (unat ndx)) = Some stroff"
  shows "find_exe_seg_last_section env ctx
           = Some (if match_sections (ctx_elf ctx) (unat phoff) (unat shoff) (unat np) (unat ns) = []
                   then None
                   else fill_shinfo env (ctx_elf ctx) (unat shoff) (unat stroff)
                          (last (match_sections (ctx_elf ctx) (unat phoff) (unat shoff)
                                   (unat np) (unat ns))))"
proof -
  let ?m = "ctx_elf ctx" and ?P = "unat phoff" and ?S = "unat shoff"
  from ok hdr have mal: "malloc_ok env (sizeof_shinfo env)"
    and Pb: "?P + 56 * unat np \<le> length ?m" and Sb: "?S + 64 * unat ns \<le> length ?m"
    and nm: "list_all (\<lambda>j. fill_shinfo env ?m ?S (unat stroff) j \<noteq> None) [0 ..< unat ns]"
    by (simp_all add: locator_ok_def)
  have fill: "fill_shinfo env ?m ?S (unat stroff) j \<noteq> None" if "j < unat ns" for j
    using nm that by (simp add: list_all_iff)
  have pin: "?P + 56 * i + 56 \<le> length ?m" if "i < unat np" for i
  proof -
    have "56 * (i + 1) \<le> 56 * unat np" using that by simp
    then show ?thesis using Pb by simp
  qed
  have sin: "?S + 64 * j + 64 \<le> length ?m" if "j < unat ns" for j
  proof -
    have "64 * (j + 1) \<le> 64 * unat ns" using that by simp
    then show ?thesis using Sb by simp
  qed
  have fl: "load32 ?m (p_flags_at ?P i) \<noteq> None" if "i < unat np" for i
    using load32_Some [of "p_flags_at ?P i" ?m] pin [OF that] by (auto simp: ph_at_defs)
  have se: "segment_end ?m ?P i \<noteq> None" if "i < unat np" for i
    using load64_Some [of "p_vaddr_at ?P i" ?m] load64_Some [of "p_memsz_at ?P i" ?m]
      pin [OF that]
    by (auto simp: segment_end_def ph_at_defs)
  have sec: "section_end ?m ?S j \<noteq> None" if "j < unat ns" for j
    using load64_Some [of "sh_addr_at ?S j" ?m] load64_Some [of "sh_size_at ?S j" ?m]
      sin [OF that]
    by (auto simp: section_end_def sh_addr_at_def sh_size_at_def)
  have "segment_scan env ?m ?P ?S (unat stroff) 0 None
          = Ran (foldl (seg_step env ?m ?P ?S (unat stroff) (unat ns)) None [0 ..< unat np])"
    by (rule segment_scan_foldl [OF hdr(3,4) mal fl se sec fill])
  also have "seg_step env ?m ?P ?S (unat stroff) (unat ns)
      = (\<lambda>s i. if filter (pair_matches ?m ?P ?S i) [0 ..< unat ns] = [] then s
               else fill_shinfo env ?m ?S (unat stroff)
                      (last (filter (pair_matches ?m ?P ?S i) [0 ..< unat ns])))"
    by (intro ext) (rule seg_step_matches)
  finally have "segment_scan env ?m ?P ?S (unat stroff) 0 None
      = Ran (if match_sections ?m ?P ?S (unat np) (unat ns) = [] then None
             else fill_shinfo env ?m ?S (unat stroff)
                    (last (match_sections ?m ?P ?S (unat np) (unat ns))))"
    by (simp add: foldl_last_concat [where G = "\<lambda>i. filter (pair_matches ?m ?P ?S i) [0 ..< unat ns]"]
        match_sections_def)
  then show ?thesis using hdr
    by (simp add: find_exe_seg_last_section_def Let_def)
qed

section \<open>The relocator in terms of the 64-bit fields\<close>

lemma halves_low: "(ucast (ucast (lo :: 32 word) OR push_bit 32 (hi :: 64 word) :: 64 word) :: 32 word) = lo"
  by (rule bit_word_eqI) (auto simp: bit_simps)

lemma halves_high:
  "drop_bit 32 (ucast (lo :: 32 word) OR push_bit 32 (ucast (ucast (drop_bit 32 v) :: 32 word)) :: 64 word)
     = drop_bit 32 (v :: 64 word)"
  by (rule bit_word_eqI) (auto simp: bit_simps dest: bit_imp_le_length)

lemma unat_add_lt_32:
  assumes "unat (a :: 64 word) + unat (b :: 64 word) < 2 ^ 32"
  shows "unat (a + b) = unat a + unat b"
proof -
  have "unat a + unat b < 2 ^ 64" using assms by simp
  then show ?thesis by (simp add: unat_word_ariths)
qed

lemma ucast_add_no_wrap:
  assumes "unat (a :: 64 word) + unat (b :: 64 word) < 2 ^ 32"
  shows "(ucast (ucast (a + b) :: 32 word) :: 64 word) = a + b"
proof -
  have "unat (a + b) < 2 ^ 32" using unat_add_lt_32 [OF assms] assms by simp
  then show ?thesis
    by (simp add: word_unat_eq_iff unat_ucast_32_64 unat_ucast_64_32)
qed

lemma ucast_low_add_no_wrap:
  assumes "unat (a :: 64 word) + unat (b :: 64 word) < 2 ^ 32"
  shows "(ucast ((ucast a :: 32 word) + ucast b) :: 64 word) = a + b"
proof -
  have a: "unat a < 2 ^ 32" and b: "unat b < 2 ^ 32" using assms by simp_all
  have "unat ((ucast a :: 32 word) + ucast b) = unat a + unat b"
    using assms a b by (simp add: unat_word_ariths unat_ucast_64_32)
  then show ?thesis using unat_add_lt_32 [OF assms]
    by (simp add: word_unat_eq_iff unat_ucast_32_64)
qed

lemma drop_bit_32_small:
  assumes "unat (v :: 64 word) < 2 ^ 32"
  shows "drop_bit 32 v = 0"
proof -
  have "unat (drop_bit 32 v) = unat v div 2 ^ 32"
    by (simp add: unat_drop_bit_eq drop_bit_eq_div unat_div_distrib)
  then have "unat (drop_bit 32 v) = 0" using assms by simp
  then show ?thesis by (simp add: unat_eq_0)
qed

text \<open>The relocator on an image of the expected shape, in terms of the 64-bit fields.\<close>

lemma expand_section_fields:
  assumes lay: "layout_ok (ctx_elf ctx)"
    and d: "descriptor_of (ctx_elf ctx) sinfo j"
    and sh: "e_shoff (ctx_elf ctx) = Some shoff" "e_shnum (ctx_elf ctx) = Some shnum"
    and ph: "e_phoff (ctx_elf ctx) = Some phoff" "e_phnum (ctx_elf ctx) = Some phnum"
    and t: "load64 (ctx_elf ctx) (sh_offset_at (unat shoff) j) = Some toff"
           "load64 (ctx_elf ctx) (sh_size_at (unat shoff) j) = Some tsize"
  obtains m' where
    "expand_section env ctx sinfo
       = Some (ctx\<lparr>ctx_elf := m'\<rparr>,
               \<lparr>pi_base = ucast toff + ucast tsize, pi_size = getpagesize env\<rparr>)"
    "length m' = length (ctx_elf ctx)"
    "\<And>k. k < unat shnum \<Longrightarrow>
       load64 m' (sh_offset_at (unat shoff) k)
         = map_option (sh_shift (ucast toff + ucast tsize) (getpagesize env))
             (load64 (ctx_elf ctx) (sh_offset_at (unat shoff) k))"
    "load64 m' (sh_size_at (unat shoff) j)
       = Some (ucast (ucast tsize + ucast (si_slackspace sinfo) :: 32 word)
               OR push_bit 32 (ucast (ucast (drop_bit 32 tsize) :: 32 word)))"
    "\<And>k. k < unat phnum \<Longrightarrow>
       load64 m' (p_offset_at (unat phoff) k)
         = map_option (ph_shift (ucast toff + ucast tsize) (getpagesize env))
             (load64 (ctx_elf ctx) (p_offset_at (unat phoff) k))"
proof (rule expand_section_spec [OF lay sh ph descriptor_ofD [OF d sh], of env])
  fix m' off32 size32
  let ?m = "ctx_elf ctx" and ?S = "unat shoff"
  assume o32: "load32 ?m (sh_offset_at ?S j) = Some off32"
    and s32: "load32 ?m (sh_size_at ?S j) = Some size32"
    and run: "expand_section env ctx sinfo
       = Some (ctx\<lparr>ctx_elf := m'\<rparr>, \<lparr>pi_base = off32 + size32, pi_size = getpagesize env\<rparr>)"
    and len: "length m' = length ?m"
    and shk: "\<And>k. k < unat shnum \<Longrightarrow>
       load64 m' (sh_offset_at ?S k)
         = map_option (sh_shift (off32 + size32) (getpagesize env)) (load64 ?m (sh_offset_at ?S k))"
    and lo: "load32 m' (sh_size_at ?S j) = Some (size32 + ucast (si_slackspace sinfo))"
    and hi: "load32 m' (sh_size_at ?S j + 4) = load32 ?m (sh_size_at ?S j + 4)"
    and phk: "\<And>k. k < unat phnum \<Longrightarrow>
       load64 m' (p_offset_at (unat phoff) k)
         = map_option (ph_shift (off32 + size32) (getpagesize env))
             (load64 ?m (p_offset_at (unat phoff) k))"
  have o: "off32 = ucast toff" using load32_low [OF t(1)] o32 by simp
  have s: "size32 = ucast tsize" using load32_low [OF t(2)] s32 by simp
  have "load32 m' (sh_size_at ?S j + 4) = Some (ucast (drop_bit 32 tsize))"
    using hi load32_high [OF t(2)] by simp
  from load64_halves [OF lo this]
  have sz: "load64 m' (sh_size_at ?S j)
       = Some (ucast (ucast tsize + ucast (si_slackspace sinfo) :: 32 word)
               OR push_bit 32 (ucast (ucast (drop_bit 32 tsize) :: 32 word)))"
    by (simp add: s)
  show thesis
    by (rule that [OF run [unfolded o s] len shk [unfolded o s] sz phk [unfolded o s]])
qed

lemma unat_low32_add:
  "unat ((ucast (a :: 64 word) :: 32 word) + ucast (b :: 64 word)) = (unat a + unat b) mod 2 ^ 32"
  by (simp add: unat_word_ariths unat_ucast_64_32 mod_simps)

lemma unat_trunc_add:
  "unat (ucast (ucast (a + b :: 64 word) :: 32 word) :: 64 word) = (unat a + unat b) mod 2 ^ 32"
  by (simp add: unat_ucast_32_64 unat_ucast_64_32 unat_word_ariths mod_mod_64_32)

lemma unat_div_32: "unat (x :: 64 word) div 2 ^ 32 = unat (drop_bit 32 x)"
  by (simp add: unat_drop_bit_eq drop_bit_eq_div unat_div_distrib)

section \<open>The exporter on well-sized and oversized payloads\<close>

lemma scast_int_result:
  assumes "unat (x :: 64 word) < 2 ^ 31"
  shows "(scast (ucast x :: 32 word) :: 64 word) = x"
proof (rule bit_word_eqI)
  fix k assume k: "k < LENGTH(64)"
  have "unat (take_bit 31 x) = unat x"
    using assms by (simp add: unsigned_take_bit_eq take_bit_nat_eq_self)
  then have x: "take_bit 31 x = x" by (simp add: word_unat_eq_iff)
  have hi: "\<not> bit x j" if "31 \<le> j" for j
    using bit_take_bit_iff [of 31 x j] x that by simp
  show "bit (scast (ucast x :: 32 word) :: 64 word) k = bit x k"
    using k hi [of k] hi [of 31]
    by (auto simp: bit_simps bit_signed_iff min_def)
qed

lemma sys_write_ok:
  "a + unat count \<le> length buf
     \<Longrightarrow> sys_write file buf a count = (file @ take (unat count) (drop a buf), count)"
  by (simp add: sys_write_def peek_def)

lemma export_ok:
  assumes op: "open_ok env"
    and base: "unat (pi_base pinfo) \<le> length (ctx_elf ctx)"
    and size: "unat (ctx_size ctx) = length (ctx_elf ctx)"
    and small: "length (ctx_elf ctx) < 2 ^ 31"
    and pl: "unat (pl_size payload) = length (pl_data payload)"
    and fit: "pl_size payload \<le> pi_size pinfo"
    and page: "unat (pi_size pinfo) < 2 ^ 31"
    and mal: "malloc_ok env (pi_size pinfo - pl_size payload)"
  shows "export_elf_file env ctx payload pinfo outfile
           = (True, Some (take (unat (pi_base pinfo)) (ctx_elf ctx) @ pl_data payload
                          @ replicate (unat (pi_size pinfo) - length (pl_data payload)) 0
                          @ drop (unat (pi_base pinfo)) (ctx_elf ctx)))"
proof -
  let ?elf = "ctx_elf ctx" and ?b = "unat (pi_base pinfo)"
  let ?pad = "pi_size pinfo - pl_size payload"
  let ?rem = "ctx_size ctx - ucast (pi_base pinfo)"
  have ub: "unat (ucast (pi_base pinfo) :: 64 word) = ?b" by (rule unat_ucast_32_64)
  have w1: "sys_write [] ?elf 0 (ucast (pi_base pinfo)) = (take ?b ?elf, ucast (pi_base pinfo))"
    using base by (simp add: sys_write_ok ub)
  have w2: "sys_write (take ?b ?elf) (pl_data payload) 0 (pl_size payload)
              = (take ?b ?elf @ pl_data payload, pl_size payload)"
    using pl by (simp add: sys_write_ok)
  have ple: "unat (pl_size payload) \<le> unat (pi_size pinfo)"
    using fit by (simp add: word_le_nat_alt)
  have n2: "scast (ucast (pl_size payload) :: 32 word) = pl_size payload"
    using ple page by (intro scast_int_result) simp
  have upad: "unat ?pad = unat (pi_size pinfo) - length (pl_data payload)"
    using fit pl by (simp add: unat_sub)
  have w3: "sys_write (take ?b ?elf @ pl_data payload) (replicate (unat ?pad) 0) 0 ?pad
              = (take ?b ?elf @ pl_data payload @ replicate (unat ?pad) 0, ?pad)"
    by (simp add: sys_write_ok)
  have n3: "scast (ucast ?pad :: 32 word) = ?pad"
    using upad page by (intro scast_int_result) simp
  have le: "(ucast (pi_base pinfo) :: 64 word) \<le> ctx_size ctx"
    using base size by (simp add: word_le_nat_alt ub)
  have urem: "unat ?rem = length ?elf - ?b"
    using le size by (simp add: unat_sub ub)
  have n4: "scast (ucast ?rem :: 32 word) = ?rem"
    using urem small by (intro scast_int_result) simp
  show ?thesis
  proof (cases "?rem = 0")
    case True
    then have "length ?elf - ?b = 0" using urem by simp
    then have "drop ?b ?elf = []" by simp
    then show ?thesis using op w1 w2 n2 mal w3 n3 True upad
      by (simp add: export_elf_file_def Let_def ucast_ucast_32_64)
  next
    case False
    have w4: "sys_write (take ?b ?elf @ pl_data payload @ replicate (unat ?pad) 0) ?elf ?b ?rem
                = (take ?b ?elf @ pl_data payload @ replicate (unat ?pad) 0 @ drop ?b ?elf, ?rem)"
      using base by (simp add: sys_write_ok urem)
    show ?thesis using op w1 w2 n2 mal w3 n3 False w4 n4 upad
      by (simp add: export_elf_file_def Let_def ucast_ucast_32_64)
  qed
qed

lemma export_oversize:
  assumes op: "open_ok env"
    and base: "unat (pi_base pinfo) \<le> length (ctx_elf ctx)"
    and pl: "unat (pl_size payload) = length (pl_data payload)"
    and small: "length (pl_data payload) < 2 ^ 31"
  shows "\<exists>rv rest. export_elf_file env ctx payload pinfo outfile
           = (rv, Some (take (unat (pi_base pinfo)) (ctx_elf ctx) @ pl_data payload @ rest))"
    and "\<not> malloc_ok env (pi_size pinfo - pl_size payload) \<Longrightarrow>
           export_elf_file env ctx payload pinfo outfile
             = (False, Some (take (unat (pi_base pinfo)) (ctx_elf ctx) @ pl_data payload))"
proof -
  let ?elf = "ctx_elf ctx" and ?b = "unat (pi_base pinfo)"
  let ?f2 = "take ?b ?elf @ pl_data payload"
  let ?pad = "pi_size pinfo - pl_size payload"
  have ub: "unat (ucast (pi_base pinfo) :: 64 word) = ?b" by (rule unat_ucast_32_64)
  have w1: "sys_write [] ?elf 0 (ucast (pi_base pinfo)) = (take ?b ?elf, ucast (pi_base pinfo))"
    using base by (simp add: sys_write_ok ub)
  have w2: "sys_write (take ?b ?elf) (pl_data payload) 0 (pl_size payload)
              = (?f2, pl_size payload)"
    using pl by (simp add: sys_write_ok)
  have n2: "scast (ucast (pl_size payload) :: 32 word) = pl_size payload"
    using pl small by (intro scast_int_result) simp
  have w3: "sys_write ?f2 (replicate (unat ?pad) 0) 0 ?pad = (?f2 @ replicate (unat ?pad) 0, ?pad)"
    by (simp add: sys_write_ok)
  show "\<not> malloc_ok env ?pad \<Longrightarrow>
           export_elf_file env ctx payload pinfo outfile = (False, Some ?f2)"
    using op w1 w2 n2 by (simp add: export_elf_file_def Let_def ucast_ucast_32_64)
  obtain f4 r4 where w4: "sys_write (?f2 @ replicate (unat ?pad) 0) ?elf ?b
                            (ctx_size ctx - ucast (pi_base pinfo)) = (f4, r4)"
    by (cases "sys_write (?f2 @ replicate (unat ?pad) 0) ?elf ?b
                 (ctx_size ctx - ucast (pi_base pinfo))")
  have f4: "\<exists>rest. f4 = ?f2 @ rest"
    using w4 by (auto simp: sys_write_def split: option.splits)
  show "\<exists>rv rest. export_elf_file env ctx payload pinfo outfile
           = (rv, Some (take ?b ?elf @ pl_data payload @ rest))"
    using op w1 w2 n2 w3 w4 f4
    by (auto simp: export_elf_file_def Let_def ucast_ucast_32_64)
qed

lemma fill_shinfo_fields:
  assumes "fill_shinfo env m S shstr j = Some s"
  shows "si_offset s = sh_offset_at S j" "si_size s = sh_size_at S j"
    "si_slackspace s = getpagesize env"
  using assms by (auto simp: fill_shinfo_def split: option.splits)

lemma match_sections_bound: "j \<in> set (match_sections m P S np ns) \<Longrightarrow> j < ns"
  by (auto simp: match_sections_def)

lemma find_descriptor:
  assumes ok: "locator_ok env (ctx_elf ctx)"
    and f: "find_exe_seg_last_section env ctx = Some (Some sinfo)"
  shows "\<exists>j. descriptor_of (ctx_elf ctx) sinfo j"
proof -
  let ?m = "ctx_elf ctx"
  from ok obtain phoff shoff np ns ndx stroff where h:
    "e_phoff ?m = Some phoff" "e_shoff ?m = Some shoff" "e_phnum ?m = Some np"
    "e_shnum ?m = Some ns" "e_shstrndx ?m = Some ndx"
    "load64 ?m (sh_offset_at (unat shoff) (unat ndx)) = Some stroff"
    unfolding locator_ok_def by (auto split: option.splits)
  let ?ms = "match_sections ?m (unat phoff) (unat shoff) (unat np) (unat ns)"
  from locator_spec [OF ok h] f
  have ne: "?ms \<noteq> []"
    and fi: "fill_shinfo env ?m (unat shoff) (unat stroff) (last ?ms) = Some sinfo"
    by (auto split: if_splits)
  have "last ?ms \<in> set ?ms" using ne by simp
  then have "last ?ms < unat ns" by (rule match_sections_bound)
  then have "descriptor_of ?m sinfo (last ?ms)"
    using h(2,4) fill_shinfo_fields [OF fi] by (simp add: descriptor_of_def)
  then show ?thesis ..
qed

section \<open>Facts about the example image\<close>

lemma image_a_layout: "layout_ok (ctx_elf ctx_a)" by code_simp
lemma image_a_descriptor: "descriptor_of (ctx_elf ctx_a) sinfo_a 1" by code_simp
lemma image_a_ehdr:
  "e_phoff (ctx_elf ctx_a) = Some 64" "e_phnum (ctx_elf ctx_a) = Some 2"
  "e_shoff (ctx_elf ctx_a) = Some 208" "e_shnum (ctx_elf ctx_a) = Some 4"
  by code_simp+
lemma image_a_target:
  "load32 (ctx_elf ctx_a) (si_offset sinfo_a) = Some 176"
  "load32 (ctx_elf ctx_a) (si_size sinfo_a) = Some 8"
  by code_simp+
lemma env_a_page: "getpagesize env_a = 4096" by code_simp

lemma base_after_eq:
  "expand_section env ctx sinfo = Some (ctx', pinfo) \<Longrightarrow> base_after env ctx sinfo = Some (pi_base pinfo)"
  by (simp add: base_after_def)

lemma field64_after_eq:
  "expand_section env ctx sinfo = Some (ctx', pinfo)
     \<Longrightarrow> field64_after env ctx sinfo a = load64 (ctx_elf ctx') a"
  by (simp add: field64_after_def)

lemma image_a_locator: "locator_ok env_a (ctx_elf ctx_a)" by code_simp
lemma image_a_strtab:
  "e_shstrndx (ctx_elf ctx_a) = Some 3"
  "load64 (ctx_elf ctx_a) (sh_offset_at 208 3) = Some 192"
  by code_simp+
lemma image_a_matches: "match_sections (ctx_elf ctx_a) 64 208 2 4 = [1]" by code_simp
lemma image_a_fill: "fill_shinfo env_a (ctx_elf ctx_a) 208 192 (Suc 0) = Some sinfo_a" by code_simp

lemma image_d_locator: "locator_ok env_a (ctx_elf ctx_d)" by code_simp
lemma image_d_ehdr:
  "e_phoff (ctx_elf ctx_d) = Some 64" "e_phnum (ctx_elf ctx_d) = Some 2"
  "e_shoff (ctx_elf ctx_d) = Some 208" "e_shnum (ctx_elf ctx_d) = Some 4"
  "e_shstrndx (ctx_elf ctx_d) = Some 3"
  "load64 (ctx_elf ctx_d) (sh_offset_at 208 3) = Some 192"
  by code_simp+
lemma image_d_ends:
  "load32 (ctx_elf ctx_d) (p_flags_at 64 0) = Some 5"
  "load64 (ctx_elf ctx_d) (p_vaddr_at 64 0) = Some 0x100000000"
  "load64 (ctx_elf ctx_d) (p_memsz_at 64 0) = Some 184"
  "load64 (ctx_elf ctx_d) (sh_addr_at 208 1) = Some 0x1000000B0"
  "load64 (ctx_elf ctx_d) (sh_size_at 208 1) = Some 8"
  by code_simp+

lemma image_a_fields:
  "load64 (ctx_elf ctx_a) (sh_offset_at 208 1) = Some 176"
  "load64 (ctx_elf ctx_a) (sh_size_at 208 1) = Some 8"
  "load64 (ctx_elf ctx_a) (sh_offset_at 208 2) = Some 184"
  "load64 (ctx_elf ctx_a) (p_offset_at 64 1) = Some 184"
  by code_simp+

lemma image_b_layout: "layout_ok (ctx_elf ctx_b)" by code_simp
lemma image_b_descriptor: "descriptor_of (ctx_elf ctx_b) sinfo_a 1" by code_simp
lemma image_b_ehdr:
  "e_phoff (ctx_elf ctx_b) = Some 64" "e_phnum (ctx_elf ctx_b) = Some 2"
  "e_shoff (ctx_elf ctx_b) = Some 208" "e_shnum (ctx_elf ctx_b) = Some 5"
  by code_simp+
lemma image_b_fields:
  "load64 (ctx_elf ctx_b) (sh_offset_at 208 1) = Some 176"
  "load64 (ctx_elf ctx_b) (sh_size_at 208 1) = Some 8"
  "load64 (ctx_elf ctx_b) (sh_offset_at 208 4) = Some 0xFFFFF000"
  by code_simp+

lemma image_c_layout: "layout_ok (ctx_elf ctx_c)" by code_simp
lemma image_c_descriptor: "descriptor_of (ctx_elf ctx_c) sinfo_a 1" by code_simp
lemma image_c_ehdr:
  "e_phoff (ctx_elf ctx_c) = Some 64" "e_phnum (ctx_elf ctx_c) = Some 2"
  "e_shoff (ctx_elf ctx_c) = Some 208" "e_shnum (ctx_elf ctx_c) = Some 4"
  by code_simp+
lemma image_c_fields:
  "load64 (ctx_elf ctx_c) (sh_offset_at 208 1) = Some 0x1000000B0"
  "load64 (ctx_elf ctx_c) (sh_size_at 208 1) = Some 8"
  by code_simp+

lemma u208: "unat (208 :: 64 word) = 208" by simp
lemma u64: "unat (64 :: 64 word) = 64" by simp

lemma image_a_length: "length (ctx_elf ctx_a) = 464" by code_simp
lemma image_a_size: "ctx_size ctx_a = 464" by code_simp

lemma oversize_pad_not_allocated:
  "\<not> malloc_ok env_a (pi_size pinfo_a - pl_size payload_big)"
  by code_simp

lemma image_a_find: "find_exe_seg_last_section env_a ctx_a = Some (Some sinfo_a)"
proof -
  have "load64 (ctx_elf ctx_a) (sh_offset_at (unat (208 :: 64 word)) (unat (3 :: 16 word)))
          = Some 192"
    using image_a_strtab(2) by simp
  from locator_spec [OF image_a_locator image_a_ehdr(1,3,2,4) image_a_strtab(1) this]
  show ?thesis by (simp add: image_a_matches image_a_fill)
qed

lemma set_match_sections:
  "set (match_sections m P S np ns) = {j. j < ns \<and> (\<exists>i < np. pair_matches m P S i j)}"
  by (auto simp: match_sections_def)

lemma image_a_pairs:
  "\<exists>i < unat (2 :: 16 word). pair_matches (ctx_elf ctx_a) (unat (64 :: 64 word)) (unat (208 :: 64 word)) i 1"
  "\<forall>i < unat (2 :: 16 word). \<forall>j < unat (4 :: 16 word).
     pair_matches (ctx_elf ctx_a) (unat (64 :: 64 word)) (unat (208 :: 64 word)) i j \<longrightarrow> j = 1"
proof -
  have s: "set (match_sections (ctx_elf ctx_a) 64 208 2 4) = {1}"
    by (simp add: image_a_matches)
  have "(1 :: nat) \<in> set (match_sections (ctx_elf ctx_a) 64 208 2 4)" using s by simp
  then show "\<exists>i < unat (2 :: 16 word).
      pair_matches (ctx_elf ctx_a) (unat (64 :: 64 word)) (unat (208 :: 64 word)) i 1"
    unfolding set_match_sections by simp
  show "\<forall>i < unat (2 :: 16 word). \<forall>j < unat (4 :: 16 word).
     pair_matches (ctx_elf ctx_a) (unat (64 :: 64 word)) (unat (208 :: 64 word)) i j \<longrightarrow> j = 1"
  proof (intro allI impI)
    fix i j
    assume "i < unat (2 :: 16 word)" "j < unat (4 :: 16 word)"
      "pair_matches (ctx_elf ctx_a) (unat (64 :: 64 word)) (unat (208 :: 64 word)) i j"
    then have "j \<in> set (match_sections (ctx_elf ctx_a) 64 208 2 4)"
      unfolding set_match_sections by auto
    then show "j = 1" using s by simp
  qed
qed

section \<open>The three stages in sequence\<close>

text \<open>
  On an image of the expected shape in which the locator's comparison accepts exactly
  one section, whose content ends inside the file, with a payload of at most one page:
  the locator returns a descriptor, and the relocator followed by the exporter (the
  output opened, the pad buffer allocated) leaves a file that is bytes \<open>[0, base)\<close> of
  the relocated image, the payload, zero bytes up to one page, then the rest of the
  relocated image; its length is the input's plus one page.
\<close>

lemma stages_in_sequence:
  assumes "locator_ok env (ctx_elf ctx)" and "layout_ok (ctx_elf ctx)"
    and "e_phoff (ctx_elf ctx) = Some phoff" and "e_shoff (ctx_elf ctx) = Some shoff"
    and "e_phnum (ctx_elf ctx) = Some phnum" and "e_shnum (ctx_elf ctx) = Some shnum"
    and "\<exists>i < unat phnum. pair_matches (ctx_elf ctx) (unat phoff) (unat shoff) i j"
    and "\<forall>i < unat phnum. \<forall>k < unat shnum.
           pair_matches (ctx_elf ctx) (unat phoff) (unat shoff) i k \<longrightarrow> k = j"
    and "j < unat shnum"
    and "load32 (ctx_elf ctx) (sh_offset_at (unat shoff) j) = Some off32"
    and "load32 (ctx_elf ctx) (sh_size_at (unat shoff) j) = Some size32"
    and "unat off32 + unat size32 \<le> length (ctx_elf ctx)"
    and "unat (ctx_size ctx) = length (ctx_elf ctx)" and "length (ctx_elf ctx) < 2 ^ 31"
    and "unat (getpagesize env) < 2 ^ 31"
    and "unat (pl_size payload) = length (pl_data payload)"
    and "pl_size payload \<le> getpagesize env"
    and "open_ok env" and "malloc_ok env (getpagesize env - pl_size payload)"
  shows "\<exists>sinfo ctx' pinfo.
           find_exe_seg_last_section env ctx = Some (Some sinfo)
           \<and> expand_section env ctx sinfo = Some (ctx', pinfo)
           \<and> unat (pi_base pinfo) = unat off32 + unat size32
           \<and> export_elf_file env ctx' payload pinfo outfile
               = (True, Some (take (unat (pi_base pinfo)) (ctx_elf ctx') @ pl_data payload
                              @ replicate (unat (getpagesize env) - length (pl_data payload)) 0
                              @ drop (unat (pi_base pinfo)) (ctx_elf ctx')))
           \<and> length (take (unat (pi_base pinfo)) (ctx_elf ctx') @ pl_data payload
                      @ replicate (unat (getpagesize env) - length (pl_data payload)) 0
                      @ drop (unat (pi_base pinfo)) (ctx_elf ctx'))
               = length (ctx_elf ctx) + unat (getpagesize env)"
proof -
  let ?m = "ctx_elf ctx" and ?S = "unat shoff" and ?P = "unat phoff"
  let ?ms = "match_sections ?m ?P ?S (unat phnum) (unat shnum)"
  from assms(1,3,4,5,6) obtain ndx stroff where st:
    "e_shstrndx ?m = Some ndx" "load64 ?m (sh_offset_at ?S (unat ndx)) = Some stroff"
    and nm: "list_all (\<lambda>j. fill_shinfo env ?m ?S (unat stroff) j \<noteq> None) [0 ..< unat shnum]"
    unfolding locator_ok_def by (auto split: option.splits)
  have jin: "j \<in> set ?ms" using assms(7,9) unfolding set_match_sections by simp
  then have ne: "?ms \<noteq> []" by auto
  have "last ?ms \<in> set ?ms" using ne by simp
  then have last: "last ?ms = j" using assms(8) unfolding set_match_sections by auto
  have "fill_shinfo env ?m ?S (unat stroff) j \<noteq> None"
    using nm assms(9) by (simp add: list_all_iff)
  then obtain sinfo where fi: "fill_shinfo env ?m ?S (unat stroff) j = Some sinfo"
    by blast
  have find: "find_exe_seg_last_section env ctx = Some (Some sinfo)"
    using locator_spec [OF assms(1,3,4,5,6) st] ne last fi by simp
  note ff = fill_shinfo_fields [OF fi]
  show ?thesis
  proof (rule expand_section_spec [OF assms(2,4,6,3,5,9) ff(1,2), of env])
    fix m' o32 s32
    assume o: "load32 ?m (sh_offset_at ?S j) = Some o32"
      and s: "load32 ?m (sh_size_at ?S j) = Some s32"
      and run: "expand_section env ctx sinfo
         = Some (ctx\<lparr>ctx_elf := m'\<rparr>, \<lparr>pi_base = o32 + s32, pi_size = getpagesize env\<rparr>)"
      and len: "length m' = length ?m"
    let ?ctx' = "ctx\<lparr>ctx_elf := m'\<rparr>"
    let ?pinfo = "\<lparr>pi_base = o32 + s32, pi_size = getpagesize env\<rparr>"
    have eq: "o32 = off32" "s32 = size32" using o s assms(10,11) by simp_all
    have "unat off32 + unat size32 < 2 ^ 32" using assms(12,14) by simp
    then have b: "unat (o32 + s32) = unat off32 + unat size32"
      by (simp add: eq unat_word_ariths)
    have ple: "length (pl_data payload) \<le> unat (getpagesize env)"
      using assms(16,17) by (simp add: word_le_nat_alt)
    have ex: "export_elf_file env ?ctx' payload ?pinfo outfile
               = (True, Some (take (unat (pi_base ?pinfo)) (ctx_elf ?ctx') @ pl_data payload
                              @ replicate (unat (pi_size ?pinfo) - length (pl_data payload)) 0
                              @ drop (unat (pi_base ?pinfo)) (ctx_elf ?ctx')))"
      using assms(12-19) b len by (intro export_ok) simp_all
    have ln: "length (take (unat (o32 + s32)) m' @ pl_data payload
                      @ replicate (unat (getpagesize env) - length (pl_data payload)) 0
                      @ drop (unat (o32 + s32)) m')
               = length ?m + unat (getpagesize env)"
      using b len assms(12) ple by simp
    show ?thesis using find run b ex ln by simp
  qed
qed

lemma stages_in_sequence_example:
  "locator_ok env_a (ctx_elf ctx_a) \<and> layout_ok (ctx_elf ctx_a)
   \<and> e_phoff (ctx_elf ctx_a) = Some 64 \<and> e_shoff (ctx_elf ctx_a) = Some 208
   \<and> e_phnum (ctx_elf ctx_a) = Some 2 \<and> e_shnum (ctx_elf ctx_a) = Some 4
   \<and> match_sections (ctx_elf ctx_a) 64 208 2 4 = [1]
   \<and> load32 (ctx_elf ctx_a) (sh_offset_at 208 1) = Some 176
   \<and> load32 (ctx_elf ctx_a) (sh_size_at 208 1) = Some 8
   \<and> unat (ctx_size ctx_a) = length (ctx_elf ctx_a) \<and> length (ctx_elf ctx_a) = 464
   \<and> getpagesize env_a = 4096
   \<and> unat (pl_size payload_a) = length (pl_data payload_a)
   \<and> pl_size payload_a \<le> getpagesize env_a
   \<and> open_ok env_a \<and> malloc_ok env_a (getpagesize env_a - pl_size payload_a)
   \<and> (\<exists>sinfo ctx' pinfo.
         find_exe_seg_last_section env_a ctx_a = Some (Some sinfo)
         \<and> expand_section env_a ctx_a sinfo = Some (ctx', pinfo)
         \<and> unat (pi_base pinfo) = 184
         \<and> export_elf_file env_a ctx' payload_a pinfo None
             = (True, Some (take 184 (ctx_elf ctx') @ replicate 16 0xCC
                            @ replicate 4080 0 @ drop 184 (ctx_elf ctx')))
         \<and> length (take 184 (ctx_elf ctx') @ replicate 16 (0xCC :: byte)
                    @ replicate 4080 (0 :: byte) @ drop 184 (ctx_elf ctx')) = 4560)"
proof -
  have t: "load32 (ctx_elf ctx_a) (sh_offset_at 208 1) = Some 176"
    "load32 (ctx_elf ctx_a) (sh_size_at 208 1) = Some 8"
    using image_a_target by (simp_all add: sinfo_a_def sh_offset_at_def sh_size_at_def)
  have h9: "(1 :: nat) < unat (4 :: 16 word)" by simp
  have h12: "unat (176 :: 32 word) + unat (8 :: 32 word) \<le> length (ctx_elf ctx_a)"
    by (simp add: image_a_length)
  have h13: "unat (ctx_size ctx_a) = length (ctx_elf ctx_a)"
    by (simp add: image_a_length image_a_size)
  have h14: "length (ctx_elf ctx_a) < 2 ^ 31" by (simp add: image_a_length)
  have h15: "unat (getpagesize env_a) < 2 ^ 31" by (simp add: env_a_page)
  have h16: "unat (pl_size payload_a) = length (pl_data payload_a)"
    by (simp add: payload_a_def)
  have h17: "pl_size payload_a \<le> getpagesize env_a" by (simp add: payload_a_def env_a_page)
  have h18: "open_ok env_a" by (simp add: env_a_def)
  have h19: "malloc_ok env_a (getpagesize env_a - pl_size payload_a)"
    by (simp add: env_a_page payload_a_def) (simp add: env_a_def)
  from stages_in_sequence
         [OF image_a_locator image_a_layout image_a_ehdr(1,3,2,4) image_a_pairs h9
             t [folded u208] h12 h13 h14 h15 h16 h17 h18 h19, of None]
  obtain sinfo ctx' pinfo where f: "find_exe_seg_last_section env_a ctx_a = Some (Some sinfo)"
    and r: "expand_section env_a ctx_a sinfo = Some (ctx', pinfo)"
    and b: "unat (pi_base pinfo) = unat (176 :: 32 word) + unat (8 :: 32 word)"
    and e: "export_elf_file env_a ctx' payload_a pinfo None
               = (True, Some (take (unat (pi_base pinfo)) (ctx_elf ctx') @ pl_data payload_a
                              @ replicate (unat (getpagesize env_a) - length (pl_data payload_a)) 0
                              @ drop (unat (pi_base pinfo)) (ctx_elf ctx')))"
    and l: "length (take (unat (pi_base pinfo)) (ctx_elf ctx') @ pl_data payload_a
                      @ replicate (unat (getpagesize env_a) - length (pl_data payload_a)) 0
                      @ drop (unat (pi_base pinfo)) (ctx_elf ctx'))
               = length (ctx_elf ctx_a) + unat (getpagesize env_a)"
    by blast
  have b': "unat (pi_base pinfo) = 184" using b by simp
  have pd: "pl_data payload_a = replicate 16 0xCC" by (simp add: payload_a_def)
  have e': "export_elf_file env_a ctx' payload_a pinfo None
             = (True, Some (take 184 (ctx_elf ctx') @ replicate 16 0xCC
                            @ replicate 4080 0 @ drop 184 (ctx_elf ctx')))"
    using e unfolding b' pd by (simp add: env_a_page)
  have l': "length (take 184 (ctx_elf ctx') @ replicate 16 (0xCC :: byte)
                    @ replicate 4080 (0 :: byte) @ drop 184 (ctx_elf ctx')) = 4560"
    using l unfolding b' pd by (simp add: env_a_page image_a_length)
  have "\<exists>sinfo ctx' pinfo.
         find_exe_seg_last_section env_a ctx_a = Some (Some sinfo)
         \<and> expand_section env_a ctx_a sinfo = Some (ctx', pinfo)
         \<and> unat (pi_base pinfo) = 184
         \<and> export_elf_file env_a ctx' payload_a pinfo None
             = (True, Some (take 184 (ctx_elf ctx') @ replicate 16 0xCC
                            @ replicate 4080 0 @ drop 184 (ctx_elf ctx')))
         \<and> length (take 184 (ctx_elf ctx') @ replicate 16 (0xCC :: byte)
                    @ replicate 4080 (0 :: byte) @ drop 184 (ctx_elf ctx')) = 4560"
    using f r b' e' l' by blast
  then show ?thesis
    using image_a_locator image_a_layout image_a_ehdr image_a_matches t h13 h16 h17 h18 h19
      image_a_length env_a_page
    by blast
qed

section \<open>More facts about the example images\<close>

lemma image_d_layout: "layout_ok (ctx_elf ctx_d)" by code_simp
lemma image_d_true_ends: "true_end_pairs (ctx_elf ctx_d) 64 208 2 4 = [(0, 1)]" by code_simp
lemma image_d_matches: "match_sections (ctx_elf ctx_d) 64 208 2 4 = []" by code_simp
lemma image_d_target:
  "load32 (ctx_elf ctx_d) (sh_offset_at 208 1) = Some 176"
  "load32 (ctx_elf ctx_d) (sh_size_at 208 1) = Some 8"
  by code_simp+
lemma image_d_length: "length (ctx_elf ctx_d) = 464" by code_simp
lemma image_d_size: "ctx_size ctx_d = 464" by code_simp

section \<open>The claims\<close>

text \<open>
  C1. On the image with the executable segment at \<^verbatim>\<open>0x100000000\<close> the structural
  precondition holds: the header and the tables are in place, exactly one pair has
  equal ends (segment 0 and section 1, \<^verbatim>\<open>.text\<close>), that section ends at byte 184 of
  the 464 of the file, and the payload of sixteen bytes fits a page. The locator
  returns \<^verbatim>\<open>NULL\<close>, so there is no descriptor for the relocator and no file is exported.
\<close>

theorem no_output_for_segment_above_4G:
  "layout_ok (ctx_elf ctx_d) \<and> locator_ok env_a (ctx_elf ctx_d)
   \<and> true_end_pairs (ctx_elf ctx_d) 64 208 2 4 = [(0, 1)]
   \<and> load32 (ctx_elf ctx_d) (sh_offset_at 208 1) = Some 176
   \<and> load32 (ctx_elf ctx_d) (sh_size_at 208 1) = Some 8
   \<and> length (ctx_elf ctx_d) = 464 \<and> ctx_size ctx_d = 464
   \<and> pl_size payload_a \<le> getpagesize env_a
   \<and> unat (pl_size payload_a) = length (pl_data payload_a)
   \<and> open_ok env_a \<and> malloc_ok env_a (getpagesize env_a - pl_size payload_a)
   \<and> match_sections (ctx_elf ctx_d) 64 208 2 4 = []
   \<and> find_exe_seg_last_section env_a ctx_d = Some None"
proof -
  have st: "load64 (ctx_elf ctx_d) (sh_offset_at (unat (208 :: 64 word)) (unat (3 :: 16 word)))
              = Some 192"
    using image_d_ehdr(6) by simp
  have f: "find_exe_seg_last_section env_a ctx_d = Some None"
    using locator_spec [OF image_d_locator image_d_ehdr(1,3,2,4,5) st]
    by (simp add: image_d_matches)
  have p: "pl_size payload_a \<le> getpagesize env_a"
    "unat (pl_size payload_a) = length (pl_data payload_a)"
    by (simp_all add: payload_a_def env_a_page)
  have o: "open_ok env_a" by (simp add: env_a_def)
  have ma: "malloc_ok env_a (getpagesize env_a - pl_size payload_a)"
    by (simp add: env_a_page payload_a_def) (simp add: env_a_def)
  show ?thesis
    using image_d_layout image_d_locator image_d_true_ends image_d_target image_d_length
      image_d_size p o ma image_d_matches f
    by simp
qed


text \<open>
  C2. On the image with a section whose \<^verbatim>\<open>sh_offset\<close> is \<^verbatim>\<open>0xFFFFF000\<close>, base is 184 and
  the page 4096 bytes: after the relocator that \<^verbatim>\<open>sh_offset\<close> is 0.
\<close>

theorem expand_section_truncates_section_offset:
  "load64 (ctx_elf ctx_b) (sh_offset_at 208 4) = Some 0xFFFFF000
   \<and> getpagesize env_a = 4096
   \<and> base_after env_a ctx_b sinfo_a = Some 184
   \<and> field64_after env_a ctx_b sinfo_a (sh_offset_at 208 4) = Some 0"
proof (rule expand_section_fields
    [OF image_b_layout image_b_descriptor image_b_ehdr(3,4,1,2) image_b_fields(1,2) [folded u208],
     of env_a])
  fix m'
  assume run: "expand_section env_a ctx_b sinfo_a
       = Some (ctx_b\<lparr>ctx_elf := m'\<rparr>,
               \<lparr>pi_base = ucast (176 :: 64 word) + ucast (8 :: 64 word),
                  pi_size = getpagesize env_a\<rparr>)"
    and shk: "\<And>k. k < unat (5 :: 16 word) \<Longrightarrow>
         load64 m' (sh_offset_at (unat (208 :: 64 word)) k)
           = map_option (sh_shift (ucast (176 :: 64 word) + ucast (8 :: 64 word))
                           (getpagesize env_a))
               (load64 (ctx_elf ctx_b) (sh_offset_at (unat (208 :: 64 word)) k))"
  have "load64 m' (sh_offset_at 208 4) = Some 0"
    using shk [of 4] image_b_fields(3) by (simp add: env_a_page sh_shift_def)
  then show ?thesis
    using image_b_fields(3) base_after_eq [OF run] field64_after_eq [OF run]
    by (simp add: env_a_page)
qed

text \<open>
  C3. After \<^verbatim>\<open>expand_section\<close>, every program header entry whose \<^verbatim>\<open>p_offset\<close> was
  strictly greater than base has it increased by one page, and every other entry keeps
  its \<^verbatim>\<open>p_offset\<close>; independently, every entry flagged executable has \<^verbatim>\<open>p_filesz\<close> and
  \<^verbatim>\<open>p_memsz\<close> increased by one page, and every other entry keeps them. The additions
  are those of the 64-bit fields.
\<close>

theorem expand_section_program_headers:
  assumes "layout_ok (ctx_elf ctx)"
    and "descriptor_of (ctx_elf ctx) sinfo j"
    and "e_phoff (ctx_elf ctx) = Some phoff"
    and "e_phnum (ctx_elf ctx) = Some phnum"
  shows "\<exists>ctx' pinfo.
           expand_section env ctx sinfo = Some (ctx', pinfo)
           \<and> (\<forall>k < unat phnum.
                 \<exists>off fs ms fl.
                   load64 (ctx_elf ctx) (p_offset_at (unat phoff) k) = Some off
                   \<and> load64 (ctx_elf ctx) (p_filesz_at (unat phoff) k) = Some fs
                   \<and> load64 (ctx_elf ctx) (p_memsz_at (unat phoff) k) = Some ms
                   \<and> load32 (ctx_elf ctx) (p_flags_at (unat phoff) k) = Some fl
                   \<and> load64 (ctx_elf ctx') (p_offset_at (unat phoff) k)
                       = Some (if off > ucast (pi_base pinfo) then off + getpagesize env else off)
                   \<and> load64 (ctx_elf ctx') (p_filesz_at (unat phoff) k)
                       = Some (if fl AND PF_X \<noteq> 0 then fs + getpagesize env else fs)
                   \<and> load64 (ctx_elf ctx') (p_memsz_at (unat phoff) k)
                       = Some (if fl AND PF_X \<noteq> 0 then ms + getpagesize env else ms))"
proof -
  let ?m = "ctx_elf ctx" and ?P = "unat phoff"
  from assms(1) obtain phoff' shoff np ns where h:
    "e_phoff ?m = Some phoff'" "e_shoff ?m = Some shoff" "e_phnum ?m = Some np"
    "e_shnum ?m = Some ns" "unat phoff' + 56 * unat np \<le> length ?m"
    by (rule layout_okD)
  have eq: "phoff' = phoff" "np = phnum" using h(1,3) assms(3,4) by simp_all
  note d = descriptor_ofD [OF assms(2) h(2) h(4)]
  show ?thesis
  proof (rule expand_section_spec [OF assms(1) h(2) h(4) assms(3) assms(4) d, of env])
    fix m' off32 size32
    assume run: "expand_section env ctx sinfo
       = Some (ctx\<lparr>ctx_elf := m'\<rparr>, \<lparr>pi_base = off32 + size32, pi_size = getpagesize env\<rparr>)"
    and po: "\<And>k. k < unat phnum \<Longrightarrow>
       load64 m' (p_offset_at ?P k)
         = map_option (ph_shift (off32 + size32) (getpagesize env)) (load64 ?m (p_offset_at ?P k))"
    and pf: "\<And>k. k < unat phnum \<Longrightarrow>
       load64 m' (p_filesz_at ?P k)
         = map_option (ph_grow (is_exec ?m ?P k) (getpagesize env)) (load64 ?m (p_filesz_at ?P k))"
    and pm: "\<And>k. k < unat phnum \<Longrightarrow>
       load64 m' (p_memsz_at ?P k)
         = map_option (ph_grow (is_exec ?m ?P k) (getpagesize env)) (load64 ?m (p_memsz_at ?P k))"
    have "\<exists>off fs ms fl.
            load64 ?m (p_offset_at ?P k) = Some off
            \<and> load64 ?m (p_filesz_at ?P k) = Some fs
            \<and> load64 ?m (p_memsz_at ?P k) = Some ms
            \<and> load32 ?m (p_flags_at ?P k) = Some fl
            \<and> load64 m' (p_offset_at ?P k)
                = Some (if off > ucast (off32 + size32) then off + getpagesize env else off)
            \<and> load64 m' (p_filesz_at ?P k)
                = Some (if fl AND PF_X \<noteq> 0 then fs + getpagesize env else fs)
            \<and> load64 m' (p_memsz_at ?P k)
                = Some (if fl AND PF_X \<noteq> 0 then ms + getpagesize env else ms)"
      if k: "k < unat phnum" for k
    proof -
      have "56 * (k + 1) \<le> 56 * unat phnum" using k by simp
      then have inb: "?P + 56 * k + 56 \<le> length ?m" using h(5) eq by simp
      obtain off where off: "load64 ?m (p_offset_at ?P k) = Some off"
        using load64_Some [of "p_offset_at ?P k" ?m] inb by (auto simp: ph_at_defs)
      obtain fs where fs: "load64 ?m (p_filesz_at ?P k) = Some fs"
        using load64_Some [of "p_filesz_at ?P k" ?m] inb by (auto simp: ph_at_defs)
      obtain ms where ms: "load64 ?m (p_memsz_at ?P k) = Some ms"
        using load64_Some [of "p_memsz_at ?P k" ?m] inb by (auto simp: ph_at_defs)
      obtain fl where fl: "load32 ?m (p_flags_at ?P k) = Some fl"
        using load32_Some [of "p_flags_at ?P k" ?m] inb by (auto simp: ph_at_defs)
      show ?thesis using po [OF k] pf [OF k] pm [OF k] off fs ms fl
        by (simp add: ph_shift_def ph_grow_def is_exec_def)
    qed
    then show ?thesis using run by simp
  qed
qed

theorem expand_section_program_headers_witness:
  "layout_ok (ctx_elf ctx_a) \<and> descriptor_of (ctx_elf ctx_a) sinfo_a 1
   \<and> e_phoff (ctx_elf ctx_a) = Some 64 \<and> e_phnum (ctx_elf ctx_a) = Some 2
   \<and> (\<exists>ctx' pinfo.
         expand_section env_a ctx_a sinfo_a = Some (ctx', pinfo)
         \<and> pi_base pinfo = 184
         \<and> load64 (ctx_elf ctx') (p_offset_at 64 0) = Some 0
         \<and> load64 (ctx_elf ctx') (p_filesz_at 64 0) = Some 4280
         \<and> load64 (ctx_elf ctx') (p_memsz_at 64 0) = Some 4280
         \<and> load64 (ctx_elf ctx') (p_offset_at 64 1) = Some 184
         \<and> load64 (ctx_elf ctx') (p_filesz_at 64 1) = Some 8
         \<and> load64 (ctx_elf ctx') (p_memsz_at 64 1) = Some 8)"
proof -
  note h1 = image_a_layout and h2 = image_a_descriptor
    and h3 = image_a_ehdr(1) and h4 = image_a_ehdr(2)
    and base = image_a_target and pg = env_a_page
  have v: "load64 (ctx_elf ctx_a) (p_offset_at 64 0) = Some 0"
    "load64 (ctx_elf ctx_a) (p_filesz_at 64 0) = Some 184"
    "load64 (ctx_elf ctx_a) (p_memsz_at 64 0) = Some 184"
    "load32 (ctx_elf ctx_a) (p_flags_at 64 0) = Some 5"
    "load64 (ctx_elf ctx_a) (p_offset_at 64 1) = Some 184"
    "load64 (ctx_elf ctx_a) (p_filesz_at 64 1) = Some 8"
    "load64 (ctx_elf ctx_a) (p_memsz_at 64 1) = Some 8"
    "load32 (ctx_elf ctx_a) (p_flags_at 64 1) = Some 6"
    by code_simp+
  from expand_section_program_headers [OF h1 h2 h3 h4, of env_a]
  obtain ctx' pinfo where r: "expand_section env_a ctx_a sinfo_a = Some (ctx', pinfo)"
    and a: "\<forall>k < unat (2 :: 16 word).
                 \<exists>off fs ms fl.
                   load64 (ctx_elf ctx_a) (p_offset_at (unat (64 :: 64 word)) k) = Some off
                   \<and> load64 (ctx_elf ctx_a) (p_filesz_at (unat (64 :: 64 word)) k) = Some fs
                   \<and> load64 (ctx_elf ctx_a) (p_memsz_at (unat (64 :: 64 word)) k) = Some ms
                   \<and> load32 (ctx_elf ctx_a) (p_flags_at (unat (64 :: 64 word)) k) = Some fl
                   \<and> load64 (ctx_elf ctx') (p_offset_at (unat (64 :: 64 word)) k)
                       = Some (if off > ucast (pi_base pinfo) then off + getpagesize env_a else off)
                   \<and> load64 (ctx_elf ctx') (p_filesz_at (unat (64 :: 64 word)) k)
                       = Some (if fl AND PF_X \<noteq> 0 then fs + getpagesize env_a else fs)
                   \<and> load64 (ctx_elf ctx') (p_memsz_at (unat (64 :: 64 word)) k)
                       = Some (if fl AND PF_X \<noteq> 0 then ms + getpagesize env_a else ms)"
    by blast
  have b: "pi_base pinfo = 184"
    using expand_section_base [OF r base] by simp
  from a [rule_format, of 0] a [rule_format, of 1] v pg b
  have "load64 (ctx_elf ctx') (p_offset_at 64 0) = Some 0
         \<and> load64 (ctx_elf ctx') (p_filesz_at 64 0) = Some 4280
         \<and> load64 (ctx_elf ctx') (p_memsz_at 64 0) = Some 4280
         \<and> load64 (ctx_elf ctx') (p_offset_at 64 1) = Some 184
         \<and> load64 (ctx_elf ctx') (p_filesz_at 64 1) = Some 8
         \<and> load64 (ctx_elf ctx') (p_memsz_at 64 1) = Some 8"
    by (simp add: PF_X_def)
  then show ?thesis using h1 h2 h3 h4 r b by blast
qed

text \<open>
  C4, the claim on large fields: on the image whose target section has \<^verbatim>\<open>sh_offset\<close>
  \<^verbatim>\<open>0x1000000B0\<close> and \<^verbatim>\<open>sh_size\<close> 8, the base the relocator sets is 184, not their sum.
\<close>

theorem base_from_low_halves:
  "load64 (ctx_elf ctx_c) (sh_offset_at 208 1) = Some 0x1000000B0
   \<and> load64 (ctx_elf ctx_c) (sh_size_at 208 1) = Some 8
   \<and> descriptor_of (ctx_elf ctx_c) sinfo_a 1
   \<and> base_after env_a ctx_c sinfo_a = Some 184
   \<and> (0x1000000B0 :: 64 word) + 8 \<noteq> ucast (184 :: 32 word)"
proof (rule expand_section_fields
    [OF image_c_layout image_c_descriptor image_c_ehdr(3,4,1,2) image_c_fields(1,2) [folded u208],
     of env_a])
  fix m'
  assume run: "expand_section env_a ctx_c sinfo_a
       = Some (ctx_c\<lparr>ctx_elf := m'\<rparr>,
               \<lparr>pi_base = ucast (0x1000000B0 :: 64 word) + ucast (8 :: 64 word),
                  pi_size = getpagesize env_a\<rparr>)"
  show ?thesis
    using image_c_fields image_c_descriptor base_after_eq [OF run] by simp
qed

text \<open>
  C4 as amended. When the target section's offset and size fields and their sum are
  below \<open>2 ^ 32\<close>, and so is size plus one page, and the descriptor's slack is one page:
  the relocator sets base to offset plus size and the reserved size to one page, returns
  them so, and leaves size plus one page in the target's size field.
\<close>

theorem expand_section_patch_info:
  assumes "layout_ok (ctx_elf ctx)"
    and "descriptor_of (ctx_elf ctx) sinfo j"
    and "e_shoff (ctx_elf ctx) = Some shoff"
    and "load64 (ctx_elf ctx) (sh_offset_at (unat shoff) j) = Some toff"
    and "load64 (ctx_elf ctx) (sh_size_at (unat shoff) j) = Some tsize"
    and "si_slackspace sinfo = getpagesize env"
    and "unat toff + unat tsize < 2 ^ 32"
    and "unat tsize + unat (getpagesize env) < 2 ^ 32"
  shows "\<exists>ctx' pinfo.
           expand_section env ctx sinfo = Some (ctx', pinfo)
           \<and> unat (pi_base pinfo) = unat toff + unat tsize
           \<and> pi_size pinfo = getpagesize env
           \<and> load64 (ctx_elf ctx') (sh_size_at (unat shoff) j) = Some (tsize + getpagesize env)"
proof -
  let ?m = "ctx_elf ctx"
  from assms(1) obtain phoff shoff' np ns where h:
    "e_phoff ?m = Some phoff" "e_shoff ?m = Some shoff'" "e_phnum ?m = Some np"
    "e_shnum ?m = Some ns"
    by (rule layout_okD)
  show ?thesis
  proof (rule expand_section_fields [OF assms(1,2,3) h(4) h(1) h(3) assms(4,5), of env])
    fix m'
    assume run: "expand_section env ctx sinfo
       = Some (ctx\<lparr>ctx_elf := m'\<rparr>,
               \<lparr>pi_base = ucast toff + ucast tsize, pi_size = getpagesize env\<rparr>)"
      and sz: "load64 m' (sh_size_at (unat shoff) j)
         = Some (ucast (ucast tsize + ucast (si_slackspace sinfo) :: 32 word)
                 OR push_bit 32 (ucast (ucast (drop_bit 32 tsize) :: 32 word)))"
    have b: "unat ((ucast toff :: 32 word) + ucast tsize) = unat toff + unat tsize"
      using assms(7) by (simp add: unat_low32_add)
    have "unat tsize < 2 ^ 32" using assms(8) by simp
    then have hi: "drop_bit 32 tsize = 0" by (rule drop_bit_32_small)
    have "load64 m' (sh_size_at (unat shoff) j) = Some (tsize + getpagesize env)"
      using sz by (simp add: hi assms(6) ucast_low_add_no_wrap [OF assms(8)])
    then show ?thesis using run b by simp
  qed
qed

theorem expand_section_patch_info_witness:
  "layout_ok (ctx_elf ctx_a) \<and> descriptor_of (ctx_elf ctx_a) sinfo_a 1
   \<and> e_shoff (ctx_elf ctx_a) = Some 208
   \<and> load64 (ctx_elf ctx_a) (sh_offset_at 208 1) = Some 176
   \<and> load64 (ctx_elf ctx_a) (sh_size_at 208 1) = Some 8
   \<and> si_slackspace sinfo_a = getpagesize env_a
   \<and> (\<exists>ctx' pinfo.
         expand_section env_a ctx_a sinfo_a = Some (ctx', pinfo)
         \<and> unat (pi_base pinfo) = 184
         \<and> pi_size pinfo = 4096
         \<and> load64 (ctx_elf ctx') (sh_size_at 208 1) = Some 4104)"
proof -
  have sl: "si_slackspace sinfo_a = getpagesize env_a"
    by (simp add: sinfo_a_def env_a_page)
  have a: "unat (176 :: 64 word) + unat (8 :: 64 word) < 2 ^ 32"
    and b: "unat (8 :: 64 word) + unat (getpagesize env_a) < 2 ^ 32"
    by (simp_all add: env_a_page)
  from expand_section_patch_info
         [OF image_a_layout image_a_descriptor image_a_ehdr(3) image_a_fields(1,2) [folded u208]
             sl a b]
  show ?thesis
    using image_a_layout image_a_descriptor image_a_ehdr(3) image_a_fields(1,2) sl
    by (simp add: env_a_page)
qed

text \<open>
  C5. After \<^verbatim>\<open>expand_section\<close>, \<^verbatim>\<open>e_shoff\<close> is one page more than before if it was
  strictly greater than base and is unchanged otherwise, and likewise \<^verbatim>\<open>e_phoff\<close>.
\<close>

theorem expand_section_table_offsets:
  assumes "layout_ok (ctx_elf ctx)"
    and "descriptor_of (ctx_elf ctx) sinfo j"
    and "e_shoff (ctx_elf ctx) = Some shoff"
    and "e_phoff (ctx_elf ctx) = Some phoff"
  shows "\<exists>ctx' pinfo.
           expand_section env ctx sinfo = Some (ctx', pinfo)
           \<and> e_shoff (ctx_elf ctx')
               = Some (if shoff > ucast (pi_base pinfo) then shoff + getpagesize env else shoff)
           \<and> e_phoff (ctx_elf ctx')
               = Some (if phoff > ucast (pi_base pinfo) then phoff + getpagesize env else phoff)"
proof -
  let ?m = "ctx_elf ctx"
  from assms(1) obtain phoff' shoff' np ns where h:
    "e_phoff ?m = Some phoff'" "e_shoff ?m = Some shoff'" "e_phnum ?m = Some np"
    "e_shnum ?m = Some ns"
    by (rule layout_okD)
  note d = descriptor_ofD [OF assms(2) assms(3) h(4)]
  show ?thesis
  proof (rule expand_section_spec [OF assms(1) assms(3) h(4) assms(4) h(3) d, of env])
    fix m' off32 size32
    assume "expand_section env ctx sinfo
       = Some (ctx\<lparr>ctx_elf := m'\<rparr>, \<lparr>pi_base = off32 + size32, pi_size = getpagesize env\<rparr>)"
      and "e_shoff m' = Some (ph_shift (off32 + size32) (getpagesize env) shoff)"
      and "e_phoff m' = Some (ph_shift (off32 + size32) (getpagesize env) phoff)"
    then show ?thesis by (simp add: ph_shift_def)
  qed
qed

theorem expand_section_table_offsets_witness:
  "layout_ok (ctx_elf ctx_a) \<and> descriptor_of (ctx_elf ctx_a) sinfo_a 1
   \<and> e_shoff (ctx_elf ctx_a) = Some 208 \<and> e_phoff (ctx_elf ctx_a) = Some 64
   \<and> (\<exists>ctx' pinfo.
         expand_section env_a ctx_a sinfo_a = Some (ctx', pinfo)
         \<and> pi_base pinfo = 184
         \<and> e_shoff (ctx_elf ctx') = Some 4304
         \<and> e_phoff (ctx_elf ctx') = Some 64)"
proof -
  from expand_section_table_offsets
         [OF image_a_layout image_a_descriptor image_a_ehdr(3) image_a_ehdr(1), of env_a]
  obtain ctx' pinfo where r: "expand_section env_a ctx_a sinfo_a = Some (ctx', pinfo)"
    and a: "e_shoff (ctx_elf ctx')
               = Some (if (208 :: 64 word) > ucast (pi_base pinfo) then 208 + getpagesize env_a else 208)"
           "e_phoff (ctx_elf ctx')
               = Some (if (64 :: 64 word) > ucast (pi_base pinfo) then 64 + getpagesize env_a else 64)"
    by blast
  have b: "pi_base pinfo = 184"
    using expand_section_base [OF r image_a_target] by simp
  show ?thesis
    using image_a_layout image_a_descriptor image_a_ehdr(1,3) r a b
    by (simp add: env_a_page)
qed

text \<open>
  C6. On the image with the executable segment at \<^verbatim>\<open>0x100000000\<close>, entry 0 of the
  program table is flagged executable and its end \<^verbatim>\<open>p_vaddr + p_memsz\<close> is the end
  \<^verbatim>\<open>sh_addr + sh_size\<close> of section 1, and the locator returns \<^verbatim>\<open>NULL\<close>.
\<close>

theorem locator_misses_segment_above_4G:
  "load32 (ctx_elf ctx_d) (p_flags_at 64 0) = Some 5
   \<and> (5 :: 32 word) AND PF_X \<noteq> 0
   \<and> load64 (ctx_elf ctx_d) (p_vaddr_at 64 0) = Some 0x100000000
   \<and> load64 (ctx_elf ctx_d) (p_memsz_at 64 0) = Some 184
   \<and> load64 (ctx_elf ctx_d) (sh_addr_at 208 1) = Some 0x1000000B0
   \<and> load64 (ctx_elf ctx_d) (sh_size_at 208 1) = Some 8
   \<and> (0x1000000B0 :: 64 word) + 8 = 0x100000000 + 184
   \<and> find_exe_seg_last_section env_a ctx_d = Some None"
  by code_simp

text \<open>
  C7, the claim on the example: with base 184, a page of 4096 bytes and a payload of
  4097 bytes, the exporter returns failure and leaves a destination of 4281 bytes,
  the first 184 bytes of the image followed by the payload.
\<close>

theorem oversize_payload_is_written:
  "pi_size pinfo_a < pl_size payload_big
   \<and> export_elf_file env_a ctx_a payload_big pinfo_a None
       = (False, Some (take 184 (ctx_elf ctx_a) @ pl_data payload_big))
   \<and> length (take 184 (ctx_elf ctx_a) @ pl_data payload_big) = 4281"
proof -
  have 1: "open_ok env_a" by (simp add: env_a_def)
  have 2: "unat (pi_base pinfo_a) \<le> length (ctx_elf ctx_a)"
    by (simp add: pinfo_a_def image_a_length)
  have 3: "unat (pl_size payload_big) = length (pl_data payload_big)"
    by (simp add: payload_big_def)
  have 4: "length (pl_data payload_big) < 2 ^ 31" by (simp add: payload_big_def)
  have 5: "\<not> malloc_ok env_a (pi_size pinfo_a - pl_size payload_big)"
    by (rule oversize_pad_not_allocated)
  have "export_elf_file env_a ctx_a payload_big pinfo_a None
       = (False, Some (take (unat (pi_base pinfo_a)) (ctx_elf ctx_a) @ pl_data payload_big))"
    by (rule export_oversize(2) [OF 1 2 3 4 5])
  then show ?thesis
    by (simp add: pinfo_a_def image_a_length) (simp add: payload_big_def)
qed

text \<open>
  C7 as amended. For a payload larger than the reserved size, the exporter does not
  fail before writing: the destination is created or truncated and receives the first
  base bytes of the image and the whole payload before the pad size is computed; the
  pad size is the difference modulo \<open>2 ^ 64\<close>, and when \<^verbatim>\<open>malloc\<close> of that size fails
  the exporter returns failure, leaving exactly those bytes in the destination.
\<close>

theorem export_oversize_payload:
  assumes "open_ok env"
    and "unat (pi_base pinfo) \<le> length (ctx_elf ctx)"
    and "unat (pl_size payload) = length (pl_data payload)"
    and "length (pl_data payload) < 2 ^ 31"
    and "pi_size pinfo < pl_size payload"
  shows "(\<exists>rv rest. export_elf_file env ctx payload pinfo outfile
            = (rv, Some (take (unat (pi_base pinfo)) (ctx_elf ctx) @ pl_data payload @ rest)))
         \<and> unat (pi_size pinfo - pl_size payload)
             = 2 ^ 64 + unat (pi_size pinfo) - unat (pl_size payload)
         \<and> (\<not> malloc_ok env (pi_size pinfo - pl_size payload) \<longrightarrow>
               export_elf_file env ctx payload pinfo outfile
                 = (False, Some (take (unat (pi_base pinfo)) (ctx_elf ctx) @ pl_data payload)))"
proof (intro conjI impI)
  show "\<exists>rv rest. export_elf_file env ctx payload pinfo outfile
            = (rv, Some (take (unat (pi_base pinfo)) (ctx_elf ctx) @ pl_data payload @ rest))"
    by (rule export_oversize(1) [OF assms(1-4)])
next
  have "unat (pi_size pinfo) < unat (pl_size payload)"
    using assms(5) by (simp add: word_less_nat_alt)
  then show "unat (pi_size pinfo - pl_size payload)
             = 2 ^ 64 + unat (pi_size pinfo) - unat (pl_size payload)"
    by (simp add: unat_sub_if_size word_size)
next
  assume "\<not> malloc_ok env (pi_size pinfo - pl_size payload)"
  then show "export_elf_file env ctx payload pinfo outfile
                 = (False, Some (take (unat (pi_base pinfo)) (ctx_elf ctx) @ pl_data payload))"
    by (rule export_oversize(2) [OF assms(1-4)])
qed

theorem export_oversize_payload_witness:
  "open_ok env_a \<and> unat (pi_base pinfo_a) \<le> length (ctx_elf ctx_a)
   \<and> unat (pl_size payload_big) = length (pl_data payload_big)
   \<and> length (pl_data payload_big) = 4097
   \<and> pi_size pinfo_a < pl_size payload_big
   \<and> \<not> malloc_ok env_a (pi_size pinfo_a - pl_size payload_big)
   \<and> unat (pi_size pinfo_a - pl_size payload_big) = 2 ^ 64 - 1
   \<and> export_elf_file env_a ctx_a payload_big pinfo_a None
       = (False, Some (take 184 (ctx_elf ctx_a) @ pl_data payload_big))"
proof -
  have 1: "open_ok env_a" by (simp add: env_a_def)
  have 2: "unat (pi_base pinfo_a) \<le> length (ctx_elf ctx_a)"
    by (simp add: pinfo_a_def image_a_length)
  have 3: "unat (pl_size payload_big) = length (pl_data payload_big)"
    by (simp add: payload_big_def)
  have 4: "length (pl_data payload_big) < 2 ^ 31" by (simp add: payload_big_def)
  have 5: "pi_size pinfo_a < pl_size payload_big" by (simp add: pinfo_a_def payload_big_def)
  have 6: "\<not> malloc_ok env_a (pi_size pinfo_a - pl_size payload_big)"
    by (rule oversize_pad_not_allocated)
  from export_oversize_payload [OF 1 2 3 4 5, of None] 6
  have "unat (pi_size pinfo_a - pl_size payload_big)
             = 2 ^ 64 + unat (pi_size pinfo_a) - unat (pl_size payload_big)"
    and "export_elf_file env_a ctx_a payload_big pinfo_a None
                 = (False, Some (take (unat (pi_base pinfo_a)) (ctx_elf ctx_a) @ pl_data payload_big))"
    by simp_all
  then show ?thesis using 1 2 3 5 6
    by (simp add: pinfo_a_def) (simp add: payload_big_def)
qed

text \<open>
  C8, the claim at the boundary: on the example image base is 184 and entry 1 of the
  program table has \<^verbatim>\<open>p_offset\<close> 184; after the relocator it is still 184.
\<close>

theorem program_offset_at_base_is_kept:
  "load64 (ctx_elf ctx_a) (p_offset_at 64 1) = Some 184
   \<and> base_after env_a ctx_a sinfo_a = Some 184
   \<and> field64_after env_a ctx_a sinfo_a (p_offset_at 64 1) = Some 184
   \<and> field64_after env_a ctx_a sinfo_a (p_offset_at 64 1) \<noteq> Some (184 + getpagesize env_a)"
proof (rule expand_section_fields
    [OF image_a_layout image_a_descriptor image_a_ehdr(3,4,1,2) image_a_fields(1,2) [folded u208],
     of env_a])
  fix m'
  assume run: "expand_section env_a ctx_a sinfo_a
       = Some (ctx_a\<lparr>ctx_elf := m'\<rparr>,
               \<lparr>pi_base = ucast (176 :: 64 word) + ucast (8 :: 64 word),
                  pi_size = getpagesize env_a\<rparr>)"
    and phk: "\<And>k. k < unat (2 :: 16 word) \<Longrightarrow>
         load64 m' (p_offset_at (unat (64 :: 64 word)) k)
           = map_option (ph_shift (ucast (176 :: 64 word) + ucast (8 :: 64 word))
                           (getpagesize env_a))
               (load64 (ctx_elf ctx_a) (p_offset_at (unat (64 :: 64 word)) k))"
  have "load64 m' (p_offset_at 64 1) = Some 184"
    using phk [of 1] image_a_fields(4) by (simp add: env_a_page ph_shift_def)
  then show ?thesis
    using image_a_fields(4) base_after_eq [OF run] field64_after_eq [OF run]
    by (simp add: env_a_page)
qed

text \<open>
  C8 as amended. After the relocator, a section header's \<^verbatim>\<open>sh_offset\<close> that was below
  base is unchanged, and one that was at least base, with \<^verbatim>\<open>sh_offset + page\<close> below
  \<open>2 ^ 32\<close>, is one page more; a program header's \<^verbatim>\<open>p_offset\<close> that was strictly above
  base is one page more, and one that was at most base is unchanged.
\<close>

theorem expand_section_offsets_by_table:
  assumes "layout_ok (ctx_elf ctx)"
    and "descriptor_of (ctx_elf ctx) sinfo j"
    and "e_shoff (ctx_elf ctx) = Some shoff" and "e_shnum (ctx_elf ctx) = Some shnum"
    and "e_phoff (ctx_elf ctx) = Some phoff" and "e_phnum (ctx_elf ctx) = Some phnum"
  shows "\<exists>ctx' pinfo.
           expand_section env ctx sinfo = Some (ctx', pinfo)
           \<and> (\<forall>k < unat shnum.
                 \<exists>off.
                   load64 (ctx_elf ctx) (sh_offset_at (unat shoff) k) = Some off
                   \<and> (off < ucast (pi_base pinfo)
                        \<longrightarrow> load64 (ctx_elf ctx') (sh_offset_at (unat shoff) k) = Some off)
                   \<and> (ucast (pi_base pinfo) \<le> off \<and> unat off + unat (getpagesize env) < 2 ^ 32
                        \<longrightarrow> load64 (ctx_elf ctx') (sh_offset_at (unat shoff) k)
                              = Some (off + getpagesize env)))
           \<and> (\<forall>k < unat phnum.
                 \<exists>off.
                   load64 (ctx_elf ctx) (p_offset_at (unat phoff) k) = Some off
                   \<and> load64 (ctx_elf ctx') (p_offset_at (unat phoff) k)
                       = Some (if ucast (pi_base pinfo) < off then off + getpagesize env else off))"
proof -
  let ?m = "ctx_elf ctx" and ?S = "unat shoff" and ?P = "unat phoff"
  from assms(1) obtain phoff' shoff' np ns where h:
    "e_phoff ?m = Some phoff'" "e_shoff ?m = Some shoff'" "e_phnum ?m = Some np"
    "e_shnum ?m = Some ns" "64 \<le> unat phoff'" "64 \<le> unat shoff'"
    "unat phoff' + 56 * unat np \<le> length ?m" "unat shoff' + 64 * unat ns \<le> length ?m"
    by (rule layout_okD)
  have Sb: "?S + 64 * unat shnum \<le> length ?m" using h(2,4,8) assms(3,4) by simp
  have Pb: "?P + 56 * unat phnum \<le> length ?m" using h(1,3,7) assms(5,6) by simp
  show ?thesis
  proof (rule expand_section_spec [OF assms(1,3,4,5,6) descriptor_ofD [OF assms(2,3,4)], of env])
    fix m' off32 size32
    let ?B = "off32 + size32 :: 32 word"
    assume run: "expand_section env ctx sinfo
       = Some (ctx\<lparr>ctx_elf := m'\<rparr>, \<lparr>pi_base = ?B, pi_size = getpagesize env\<rparr>)"
      and shk: "\<And>k. k < unat shnum \<Longrightarrow>
         load64 m' (sh_offset_at ?S k)
           = map_option (sh_shift ?B (getpagesize env)) (load64 ?m (sh_offset_at ?S k))"
      and phk: "\<And>k. k < unat phnum \<Longrightarrow>
         load64 m' (p_offset_at ?P k)
           = map_option (ph_shift ?B (getpagesize env)) (load64 ?m (p_offset_at ?P k))"
    have sec: "\<exists>off.
                 load64 ?m (sh_offset_at ?S k) = Some off
                 \<and> (off < ucast ?B \<longrightarrow> load64 m' (sh_offset_at ?S k) = Some off)
                 \<and> (ucast ?B \<le> off \<and> unat off + unat (getpagesize env) < 2 ^ 32
                      \<longrightarrow> load64 m' (sh_offset_at ?S k) = Some (off + getpagesize env))"
      if k: "k < unat shnum" for k
    proof -
      have "64 * (k + 1) \<le> 64 * unat shnum" using k by simp
      then have "sh_offset_at ?S k + 8 \<le> length ?m" using Sb by (simp add: sh_offset_at_def)
      then obtain off where off: "load64 ?m (sh_offset_at ?S k) = Some off"
        using load64_Some by blast
      show ?thesis using shk [OF k] off
        by (auto simp: sh_shift_def ucast_add_no_wrap)
    qed
    have seg: "\<exists>off.
                 load64 ?m (p_offset_at ?P k) = Some off
                 \<and> load64 m' (p_offset_at ?P k)
                     = Some (if ucast ?B < off then off + getpagesize env else off)"
      if k: "k < unat phnum" for k
    proof -
      have "56 * (k + 1) \<le> 56 * unat phnum" using k by simp
      then have "p_offset_at ?P k + 8 \<le> length ?m" using Pb by (simp add: p_offset_at_def)
      then obtain off where off: "load64 ?m (p_offset_at ?P k) = Some off"
        using load64_Some by blast
      show ?thesis using phk [OF k] off by (simp add: ph_shift_def)
    qed
    show ?thesis using run sec seg by simp
  qed
qed

theorem expand_section_offsets_by_table_witness:
  "layout_ok (ctx_elf ctx_a) \<and> descriptor_of (ctx_elf ctx_a) sinfo_a 1
   \<and> e_shoff (ctx_elf ctx_a) = Some 208 \<and> e_shnum (ctx_elf ctx_a) = Some 4
   \<and> e_phoff (ctx_elf ctx_a) = Some 64 \<and> e_phnum (ctx_elf ctx_a) = Some 2
   \<and> load64 (ctx_elf ctx_a) (sh_offset_at 208 1) = Some 176
   \<and> load64 (ctx_elf ctx_a) (sh_offset_at 208 2) = Some 184
   \<and> load64 (ctx_elf ctx_a) (p_offset_at 64 1) = Some 184
   \<and> (\<exists>ctx' pinfo.
         expand_section env_a ctx_a sinfo_a = Some (ctx', pinfo)
         \<and> pi_base pinfo = 184
         \<and> load64 (ctx_elf ctx') (sh_offset_at 208 1) = Some 176
         \<and> load64 (ctx_elf ctx') (sh_offset_at 208 2) = Some 4280
         \<and> load64 (ctx_elf ctx') (p_offset_at 64 1) = Some 184)"
proof -
  from expand_section_offsets_by_table
         [OF image_a_layout image_a_descriptor image_a_ehdr(3,4,1,2), of env_a]
  obtain ctx' pinfo where r: "expand_section env_a ctx_a sinfo_a = Some (ctx', pinfo)"
    and s: "\<forall>k < unat (4 :: 16 word).
                 \<exists>off.
                   load64 (ctx_elf ctx_a) (sh_offset_at (unat (208 :: 64 word)) k) = Some off
                   \<and> (off < ucast (pi_base pinfo)
                        \<longrightarrow> load64 (ctx_elf ctx') (sh_offset_at (unat (208 :: 64 word)) k) = Some off)
                   \<and> (ucast (pi_base pinfo) \<le> off \<and> unat off + unat (getpagesize env_a) < 2 ^ 32
                        \<longrightarrow> load64 (ctx_elf ctx') (sh_offset_at (unat (208 :: 64 word)) k)
                              = Some (off + getpagesize env_a))"
    and p: "\<forall>k < unat (2 :: 16 word).
                 \<exists>off.
                   load64 (ctx_elf ctx_a) (p_offset_at (unat (64 :: 64 word)) k) = Some off
                   \<and> load64 (ctx_elf ctx') (p_offset_at (unat (64 :: 64 word)) k)
                       = Some (if ucast (pi_base pinfo) < off then off + getpagesize env_a else off)"
    by blast
  have b: "pi_base pinfo = 184"
    using expand_section_base [OF r image_a_target] by simp
  have "load64 (ctx_elf ctx') (sh_offset_at 208 1) = Some 176"
    using s [rule_format, of 1] image_a_fields(1) b by simp
  moreover have "load64 (ctx_elf ctx') (sh_offset_at 208 2) = Some 4280"
    using s [rule_format, of 2] image_a_fields(3) b by (simp add: env_a_page)
  moreover have "load64 (ctx_elf ctx') (p_offset_at 64 1) = Some 184"
    using p [rule_format, of 1] image_a_fields(4) b by (simp add: env_a_page)
  ultimately show ?thesis
    using image_a_layout image_a_descriptor image_a_ehdr image_a_fields r b by auto
qed

text \<open>
  C9. The relocator's arithmetic on section header fields is made modulo \<open>2 ^ 32\<close>:
  base is the sum of the target's offset and size fields modulo \<open>2 ^ 32\<close>; the low 32
  bits of the target's size field become size plus slack modulo \<open>2 ^ 32\<close> and its high
  32 bits stay; and every entry whose \<^verbatim>\<open>sh_offset\<close> was at least base gets
  \<^verbatim>\<open>(sh_offset + page) mod 2^32\<close>.
\<close>

theorem expand_section_arithmetic_mod_2_32:
  assumes "layout_ok (ctx_elf ctx)"
    and "descriptor_of (ctx_elf ctx) sinfo j"
    and "e_shoff (ctx_elf ctx) = Some shoff" and "e_shnum (ctx_elf ctx) = Some shnum"
    and "load64 (ctx_elf ctx) (sh_offset_at (unat shoff) j) = Some toff"
    and "load64 (ctx_elf ctx) (sh_size_at (unat shoff) j) = Some tsize"
  shows "\<exists>ctx' pinfo.
           expand_section env ctx sinfo = Some (ctx', pinfo)
           \<and> unat (pi_base pinfo) = (unat toff + unat tsize) mod 2 ^ 32
           \<and> (\<exists>tsize'.
                 load64 (ctx_elf ctx') (sh_size_at (unat shoff) j) = Some tsize'
                 \<and> unat tsize' mod 2 ^ 32 = (unat tsize + unat (si_slackspace sinfo)) mod 2 ^ 32
                 \<and> unat tsize' div 2 ^ 32 = unat tsize div 2 ^ 32)
           \<and> (\<forall>k < unat shnum.
                 \<exists>off off'.
                   load64 (ctx_elf ctx) (sh_offset_at (unat shoff) k) = Some off
                   \<and> load64 (ctx_elf ctx') (sh_offset_at (unat shoff) k) = Some off'
                   \<and> (ucast (pi_base pinfo) \<le> off
                        \<longrightarrow> unat off' = (unat off + unat (getpagesize env)) mod 2 ^ 32))"
proof -
  let ?m = "ctx_elf ctx" and ?S = "unat shoff"
  from assms(1) obtain phoff shoff' np ns where h:
    "e_phoff ?m = Some phoff" "e_shoff ?m = Some shoff'" "e_phnum ?m = Some np"
    "e_shnum ?m = Some ns" "64 \<le> unat phoff" "64 \<le> unat shoff'"
    "unat phoff + 56 * unat np \<le> length ?m" "unat shoff' + 64 * unat ns \<le> length ?m"
    by (rule layout_okD)
  have Sb: "?S + 64 * unat shnum \<le> length ?m" using h(2,4,8) assms(3,4) by simp
  show ?thesis
  proof (rule expand_section_fields [OF assms(1,2,3,4) h(1) h(3) assms(5,6), of env])
    fix m'
    let ?B = "(ucast toff :: 32 word) + ucast tsize"
    let ?T = "(ucast (ucast tsize + ucast (si_slackspace sinfo) :: 32 word) :: 64 word)
               OR push_bit 32 (ucast (ucast (drop_bit 32 tsize) :: 32 word))"
    assume run: "expand_section env ctx sinfo
       = Some (ctx\<lparr>ctx_elf := m'\<rparr>, \<lparr>pi_base = ?B, pi_size = getpagesize env\<rparr>)"
      and shk: "\<And>k. k < unat shnum \<Longrightarrow>
         load64 m' (sh_offset_at ?S k)
           = map_option (sh_shift ?B (getpagesize env)) (load64 ?m (sh_offset_at ?S k))"
      and sz: "load64 m' (sh_size_at ?S j) = Some ?T"
    have b: "unat ?B = (unat toff + unat tsize) mod 2 ^ 32" by (rule unat_low32_add)
    have "unat (ucast ?T :: 32 word) = (unat tsize + unat (si_slackspace sinfo)) mod 2 ^ 32"
      unfolding halves_low by (rule unat_low32_add)
    then have t1: "unat ?T mod 2 ^ 32 = (unat tsize + unat (si_slackspace sinfo)) mod 2 ^ 32"
      by (simp add: unat_ucast_64_32)
    have t2: "unat ?T div 2 ^ 32 = unat tsize div 2 ^ 32"
      unfolding unat_div_32 halves_high ..
    have sec: "\<exists>off off'.
                 load64 ?m (sh_offset_at ?S k) = Some off
                 \<and> load64 m' (sh_offset_at ?S k) = Some off'
                 \<and> (ucast ?B \<le> off
                      \<longrightarrow> unat off' = (unat off + unat (getpagesize env)) mod 2 ^ 32)"
      if k: "k < unat shnum" for k
    proof -
      have "64 * (k + 1) \<le> 64 * unat shnum" using k by simp
      then have "sh_offset_at ?S k + 8 \<le> length ?m" using Sb by (simp add: sh_offset_at_def)
      then obtain off where off: "load64 ?m (sh_offset_at ?S k) = Some off"
        using load64_Some by blast
      show ?thesis using shk [OF k] off
        by (auto simp: sh_shift_def unat_trunc_add)
    qed
    show ?thesis using run b sz t1 t2 sec by simp
  qed
qed

theorem expand_section_arithmetic_mod_2_32_witness:
  "layout_ok (ctx_elf ctx_b) \<and> descriptor_of (ctx_elf ctx_b) sinfo_a 1
   \<and> e_shoff (ctx_elf ctx_b) = Some 208 \<and> e_shnum (ctx_elf ctx_b) = Some 5
   \<and> load64 (ctx_elf ctx_b) (sh_offset_at 208 1) = Some 176
   \<and> load64 (ctx_elf ctx_b) (sh_size_at 208 1) = Some 8
   \<and> load64 (ctx_elf ctx_b) (sh_offset_at 208 4) = Some 0xFFFFF000
   \<and> (\<exists>ctx' pinfo.
         expand_section env_a ctx_b sinfo_a = Some (ctx', pinfo)
         \<and> pi_base pinfo = 184
         \<and> (\<exists>tsize'. load64 (ctx_elf ctx') (sh_size_at 208 1) = Some tsize'
               \<and> unat tsize' mod 2 ^ 32 = 4104 \<and> unat tsize' div 2 ^ 32 = 0)
         \<and> (\<exists>off'. load64 (ctx_elf ctx') (sh_offset_at 208 4) = Some off' \<and> unat off' = 0))"
proof -
  note f = image_b_fields [folded u208]
  from expand_section_arithmetic_mod_2_32
         [OF image_b_layout image_b_descriptor image_b_ehdr(3,4) f(1,2), of env_a]
  obtain ctx' pinfo tsize' where r: "expand_section env_a ctx_b sinfo_a = Some (ctx', pinfo)"
    and b: "unat (pi_base pinfo) = (unat (176 :: 64 word) + unat (8 :: 64 word)) mod 2 ^ 32"
    and t: "load64 (ctx_elf ctx') (sh_size_at (unat (208 :: 64 word)) 1) = Some tsize'"
      "unat tsize' mod 2 ^ 32 = (unat (8 :: 64 word) + unat (si_slackspace sinfo_a)) mod 2 ^ 32"
      "unat tsize' div 2 ^ 32 = unat (8 :: 64 word) div 2 ^ 32"
    and s: "\<forall>k < unat (5 :: 16 word).
                 \<exists>off off'.
                   load64 (ctx_elf ctx_b) (sh_offset_at (unat (208 :: 64 word)) k) = Some off
                   \<and> load64 (ctx_elf ctx') (sh_offset_at (unat (208 :: 64 word)) k) = Some off'
                   \<and> (ucast (pi_base pinfo) \<le> off
                        \<longrightarrow> unat off' = (unat off + unat (getpagesize env_a)) mod 2 ^ 32)"
    by blast
  have b': "pi_base pinfo = 184" using b by (simp add: word_unat_eq_iff)
  have sl: "si_slackspace sinfo_a = 4096" by (simp add: sinfo_a_def)
  from s [rule_format, of 4] image_b_fields(3) b'
  obtain off' where "load64 (ctx_elf ctx') (sh_offset_at 208 4) = Some off'" "unat off' = 0"
    by (auto simp: env_a_page)
  then show ?thesis
    using image_b_layout image_b_descriptor image_b_ehdr(3,4) image_b_fields r b' t sl
    by auto
qed

text \<open>
  C10. The locator compares the 64-bit end of a section with the end of the segment
  reduced modulo \<open>2 ^ 32\<close>: it returns the descriptor of the last section, in scan order,
  whose end \<^verbatim>\<open>sh_addr + sh_size\<close> equals \<^verbatim>\<open>(p_vaddr + p_memsz) mod 2^32\<close> for an executable
  segment, and \<^verbatim>\<open>NULL\<close> when there is none, so that it returns a descriptor exactly when
  such a pair exists; and a section whose end equals the end of an executable segment
  that is at least \<open>2 ^ 32\<close> is not among the accepted pairs.
\<close>

theorem locator_compares_truncated_end:
  assumes "locator_ok env (ctx_elf ctx)"
    and "e_phoff (ctx_elf ctx) = Some phoff" and "e_shoff (ctx_elf ctx) = Some shoff"
    and "e_phnum (ctx_elf ctx) = Some phnum" and "e_shnum (ctx_elf ctx) = Some shnum"
    and "e_shstrndx (ctx_elf ctx) = Some ndx"
    and "load64 (ctx_elf ctx) (sh_offset_at (unat shoff) (unat ndx)) = Some stroff"
  shows "find_exe_seg_last_section env ctx
           = Some (if match_sections (ctx_elf ctx) (unat phoff) (unat shoff)
                        (unat phnum) (unat shnum) = []
                   then None
                   else fill_shinfo env (ctx_elf ctx) (unat shoff) (unat stroff)
                          (last (match_sections (ctx_elf ctx) (unat phoff) (unat shoff)
                                   (unat phnum) (unat shnum))))
         \<and> ((\<exists>d. find_exe_seg_last_section env ctx = Some (Some d))
              \<longleftrightarrow> (\<exists>i < unat phnum. \<exists>j < unat shnum.
                     pair_matches (ctx_elf ctx) (unat phoff) (unat shoff) i j))
         \<and> (\<forall>i j va ms sa ss.
               load64 (ctx_elf ctx) (p_vaddr_at (unat phoff) i) = Some va
               \<and> load64 (ctx_elf ctx) (p_memsz_at (unat phoff) i) = Some ms
               \<and> load64 (ctx_elf ctx) (sh_addr_at (unat shoff) j) = Some sa
               \<and> load64 (ctx_elf ctx) (sh_size_at (unat shoff) j) = Some ss
               \<and> 2 ^ 32 \<le> va + ms \<and> sa + ss = va + ms
               \<longrightarrow> \<not> pair_matches (ctx_elf ctx) (unat phoff) (unat shoff) i j)"
proof (intro conjI allI impI)
  let ?ms = "match_sections (ctx_elf ctx) (unat phoff) (unat shoff) (unat phnum) (unat shnum)"
  show r: "find_exe_seg_last_section env ctx
           = Some (if match_sections (ctx_elf ctx) (unat phoff) (unat shoff)
                        (unat phnum) (unat shnum) = []
                   then None
                   else fill_shinfo env (ctx_elf ctx) (unat shoff) (unat stroff)
                          (last (match_sections (ctx_elf ctx) (unat phoff) (unat shoff)
                                   (unat phnum) (unat shnum))))"
    by (rule locator_spec [OF assms])
  have ne: "?ms \<noteq> [] \<longleftrightarrow> (\<exists>i < unat phnum. \<exists>j < unat shnum.
                     pair_matches (ctx_elf ctx) (unat phoff) (unat shoff) i j)"
    by (simp add: match_sections_def filter_empty_conv) (meson atLeastLessThan_iff zero_le)
  have "list_all (\<lambda>j. fill_shinfo env (ctx_elf ctx) (unat shoff) (unat stroff) j \<noteq> None)
          [0 ..< unat shnum]"
    using assms by (simp add: locator_ok_def)
  then have fill: "fill_shinfo env (ctx_elf ctx) (unat shoff) (unat stroff) j \<noteq> None"
    if "j < unat shnum" for j
    using that by (simp add: list_all_iff)
  have "fill_shinfo env (ctx_elf ctx) (unat shoff) (unat stroff) (last ?ms) \<noteq> None"
    if "?ms \<noteq> []"
  proof -
    have "last ?ms \<in> set ?ms" using that by simp
    then show ?thesis by (intro fill) (rule match_sections_bound)
  qed
  then show "(\<exists>d. find_exe_seg_last_section env ctx = Some (Some d))
              \<longleftrightarrow> (\<exists>i < unat phnum. \<exists>j < unat shnum.
                     pair_matches (ctx_elf ctx) (unat phoff) (unat shoff) i j)"
    unfolding r ne [symmetric] by auto
next
  fix i j va ms sa ss
  assume a: "load64 (ctx_elf ctx) (p_vaddr_at (unat phoff) i) = Some va
               \<and> load64 (ctx_elf ctx) (p_memsz_at (unat phoff) i) = Some ms
               \<and> load64 (ctx_elf ctx) (sh_addr_at (unat shoff) j) = Some sa
               \<and> load64 (ctx_elf ctx) (sh_size_at (unat shoff) j) = Some ss
               \<and> 2 ^ 32 \<le> va + ms \<and> sa + ss = va + ms"
  have "(va + ms) mod 2 ^ 32 < 2 ^ 32" by (rule word_mod_less_divisor) simp
  then have "sa + ss \<noteq> (va + ms) mod 2 ^ 32" using a by auto
  then show "\<not> pair_matches (ctx_elf ctx) (unat phoff) (unat shoff) i j"
    using a by (simp add: pair_matches_def split: option.splits)
qed

theorem locator_compares_truncated_end_witness:
  "locator_ok env_a (ctx_elf ctx_a) \<and> locator_ok env_a (ctx_elf ctx_d)
   \<and> find_exe_seg_last_section env_a ctx_a = Some (Some sinfo_a)
   \<and> match_sections (ctx_elf ctx_a) 64 208 2 4 = [1]
   \<and> load64 (ctx_elf ctx_d) (p_vaddr_at 64 0) = Some 0x100000000
   \<and> load64 (ctx_elf ctx_d) (p_memsz_at 64 0) = Some 184
   \<and> load64 (ctx_elf ctx_d) (sh_addr_at 208 1) = Some 0x1000000B0
   \<and> load64 (ctx_elf ctx_d) (sh_size_at 208 1) = Some 8
   \<and> \<not> pair_matches (ctx_elf ctx_d) 64 208 0 1"
proof -
  have a6: "load64 (ctx_elf ctx_a) (sh_offset_at (unat (208 :: 64 word)) (unat (3 :: 16 word)))
              = Some 192"
    using image_a_strtab(2) by simp
  have d6: "load64 (ctx_elf ctx_d) (sh_offset_at (unat (208 :: 64 word)) (unat (3 :: 16 word)))
              = Some 192"
    using image_d_ehdr(6) by simp
  note a = locator_compares_truncated_end
             [OF image_a_locator image_a_ehdr(1,3,2,4) image_a_strtab(1) a6]
  note d = locator_compares_truncated_end
             [OF image_d_locator image_d_ehdr(1,3,2,4,5) d6]
  have "find_exe_seg_last_section env_a ctx_a = Some (Some sinfo_a)"
    using a [THEN conjunct1] by (simp add: image_a_matches image_a_fill)
  moreover have "\<not> pair_matches (ctx_elf ctx_d) 64 208 0 1"
    using d [THEN conjunct2, THEN conjunct2, rule_format, where i = 0 and j = 1 and va = "0x100000000"
                and ms = 184 and sa = "0x1000000B0" and ss = 8] image_d_ends
    by simp
  ultimately show ?thesis
    using image_a_locator image_d_locator image_a_matches image_d_ends by simp
qed

end
